theory Spec2Isabelle
  imports Main "HOL-Library.Sublist"
begin

section \<open>JavaScript strings\<close>

text \<open>
  A JavaScript string is a sequence of code units; it is modelled as a \<^typ>\<open>string\<close>, one
  \<^typ>\<open>char\<close> per code unit (code units below 256). \<open>s.slice(i)\<close> is \<^term>\<open>drop i s\<close>,
  \<open>s.slice(0, i)\<close> is \<^term>\<open>take i s\<close>, \<open>s + t\<close> is \<^term>\<open>s @ t\<close>, \<open>s.length\<close> is
  \<^term>\<open>length s\<close>, and \<open>NO_CHANGE.startsWith(s)\<close> is \<^term>\<open>prefix s t\<close>. The result \<open>-1\<close> of a
  failed search is \<^term>\<open>None\<close>.
\<close>

fun indexOf :: "string \<Rightarrow> string \<Rightarrow> nat option" where
  "indexOf [] pat = (if pat = [] then Some 0 else None)"
| "indexOf (x # xs) pat =
     (if prefix pat (x # xs) then Some 0 else map_option Suc (indexOf xs pat))"

fun lastIndexOf :: "string \<Rightarrow> string \<Rightarrow> nat option" where
  "lastIndexOf [] pat = (if pat = [] then Some 0 else None)"
| "lastIndexOf (x # xs) pat =
     (case lastIndexOf xs pat of
        Some i \<Rightarrow> Some (Suc i)
      | None \<Rightarrow> if prefix pat (x # xs) then Some 0 else None)"

text \<open>\<open>s.split(sep)\<close> for a separator of one code unit.\<close>

fun js_split :: "string \<Rightarrow> char \<Rightarrow> string list" where
  "js_split [] sep = [[]]"
| "js_split (x # xs) sep =
     (if x = sep then [] # js_split xs sep
      else (case js_split xs sep of
              [] \<Rightarrow> [[x]]
            | p # ps \<Rightarrow> (x # p) # ps))"

text \<open>Reading position \<open>i\<close> of an array in a destructuring pattern: \<open>undefined\<close> (here
  \<^term>\<open>None\<close>) when the array is shorter.\<close>

definition js_nth :: "'a list \<Rightarrow> nat \<Rightarrow> 'a option" where
  "js_nth xs i = (if i < length xs then Some (xs ! i) else None)"

text \<open>The code units that \<open>String.prototype.trim\<close> and the regular expression class \<open>\s\<close>
  remove or match, among the code units below 256: tab, line feed, vertical tab, form feed,
  carriage return, space and the no-break space.\<close>

definition is_js_space :: "char \<Rightarrow> bool" where
  "is_js_space c \<longleftrightarrow>
     c = CHR 0x09 \<or> c = CHR 0x0A \<or> c = CHR 0x0B \<or> c = CHR 0x0C \<or> c = CHR 0x0D \<or>
     c = CHR 0x20 \<or> c = CHR 0xA0"

definition js_trim :: "string \<Rightarrow> string" where
  "js_trim s = rev (dropWhile is_js_space (rev (dropWhile is_js_space s)))"

text \<open>Removing the white space at the end only.\<close>

definition trim_end :: "string \<Rightarrow> string" where
  "trim_end s = rev (dropWhile is_js_space (rev s))"

section \<open>ModelManager.parseModelString\<close>

datatype error =
    InvalidModelFormat
  | ProviderNotFound "string option"
  | ProviderError string

text \<open>
  \<^verbatim>\<open>
  parseModelString(modelString) {
      if (modelString.includes('/')) {
          const [providerName, modelName] = modelString.split('/');
          return { providerName, modelName };
      }
      throw new Error("Invalid model format. Expected 'Provider/Model'");
  }
  \<close>
\<close>

definition parseModelString :: "string \<Rightarrow> error + (string option \<times> string option)" where
  "parseModelString modelString =
     (if CHR ''/'' \<in> set modelString
      then (let parts = js_split modelString (CHR ''/'')
            in Inr (js_nth parts 0, js_nth parts 1))
      else Inl InvalidModelFormat)"

section \<open>CodeBlockParser\<close>

record CodeBlockParser =
  buffer :: string
  inCodeBlock :: bool
  codeStartIndex :: int
  languageTag :: string
  codeBlockComplete :: bool

definition new_CodeBlockParser :: CodeBlockParser where
  "new_CodeBlockParser =
     \<lparr>buffer = [], inCodeBlock = False, codeStartIndex = - 1, languageTag = [],
      codeBlockComplete = False\<rparr>"

text \<open>The class \<open>\w\<close> of the regular expression \<open>/^(\w+)[\s\n]/\<close>.\<close>

definition is_word_char :: "char \<Rightarrow> bool" where
  "is_word_char c \<longleftrightarrow>
     c \<in> set ''ABCDEFGHIJKLMNOPQRSTUVWXYZabcdefghijklmnopqrstuvwxyz0123456789_''"

text \<open>\<open>afterBackticks.match(/^(\w+)[\s\n]/)\<close>: the capture group, when the match succeeds.
  The group is greedy, and a shorter run of word characters is followed by a word character,
  so the only candidate is the longest run.\<close>

definition langMatch :: "string \<Rightarrow> string option" where
  "langMatch afterBackticks =
     (let w = takeWhile is_word_char afterBackticks
      in case dropWhile is_word_char afterBackticks of
           [] \<Rightarrow> None
         | c # _ \<Rightarrow> if w \<noteq> [] \<and> is_js_space c then Some w else None)"

text \<open>
  \<^verbatim>\<open>
  while (this.codeStartIndex < this.buffer.length &&
         (this.buffer[this.codeStartIndex] === ' ' ||
          this.buffer[this.codeStartIndex] === '\n' ||
          this.buffer[this.codeStartIndex] === '\r')) {
      this.codeStartIndex++;
  }
  \<close>
\<close>

definition is_blank :: "char \<Rightarrow> bool" where
  "is_blank c \<longleftrightarrow> c = CHR '' '' \<or> c = CHR 0x0A \<or> c = CHR 0x0D"

function skip_blank :: "string \<Rightarrow> nat \<Rightarrow> nat" where
  "skip_blank buf i =
     (if i < length buf \<and> is_blank (buf ! i) then skip_blank buf (Suc i) else i)"
  by pat_completeness auto
termination
  by (relation "measure (\<lambda>(buf, i). length buf - i)") auto

declare skip_blank.simps [simp del]

text \<open>Lines 31 to 59 of \<open>processChunk\<close>: the first marker was found at \<open>firstBacktick\<close>.\<close>

definition open_block :: "CodeBlockParser \<Rightarrow> nat \<Rightarrow> CodeBlockParser" where
  "open_block p firstBacktick =
     (let start = firstBacktick + 3;
          afterBackticks = drop start (buffer p);
          tag = (case langMatch afterBackticks of Some w \<Rightarrow> w | None \<Rightarrow> languageTag p);
          start' = (case langMatch afterBackticks of
                      Some w \<Rightarrow> skip_blank (buffer p) (start + length w)
                    | None \<Rightarrow> skip_blank (buffer p) start)
      in p\<lparr>inCodeBlock := True, languageTag := tag,
            buffer := drop start' (buffer p), codeStartIndex := 0\<rparr>)"

text \<open>Lines 84 to 101: no closing marker yet; the last two code units are held back when
  one of them is a backtick.\<close>

definition hold_back :: "CodeBlockParser \<Rightarrow> string list \<times> CodeBlockParser" where
  "hold_back p =
     (let buf = buffer p;
          yield_all = (if buf \<noteq> [] then ([buf], p\<lparr>buffer := []\<rparr>) else ([], p))
      in case lastIndexOf buf ''`'' of
           None \<Rightarrow> yield_all
         | Some partialBacktick \<Rightarrow>
             if int partialBacktick \<ge> int (length buf) - 2
             then (let safeLen = nat (max 0 (int (length buf) - 2));
                       toYield = take safeLen buf;
                       toBuffer = drop safeLen buf
                   in (if toYield \<noteq> [] then [toYield] else [], p\<lparr>buffer := toBuffer\<rparr>))
             else yield_all)"

text \<open>Lines 66 to 102.\<close>

definition in_block :: "CodeBlockParser \<Rightarrow> string list \<times> CodeBlockParser" where
  "in_block p =
     (if inCodeBlock p \<and> \<not> codeBlockComplete p
      then (case lastIndexOf (buffer p) ''```'' of
              None \<Rightarrow> hold_back p
            | Some lastBacktick \<Rightarrow>
                if lastBacktick > 0
                then (let codeContent = take lastBacktick (buffer p)
                      in (if codeContent \<noteq> [] then [codeContent] else [],
                          p\<lparr>codeBlockComplete := True, buffer := []\<rparr>))
                else hold_back p)
      else ([], p))"

text \<open>\<open>processChunk(chunk)\<close>, run to its end: the fragments it yields, in order, and the parser
  afterwards.\<close>

definition processChunk :: "CodeBlockParser \<Rightarrow> string \<Rightarrow> string list \<times> CodeBlockParser" where
  "processChunk p chunk =
     (if chunk = [] then ([], p)
      else (let p1 = p\<lparr>buffer := buffer p @ chunk\<rparr>
            in if \<not> inCodeBlock p1
               then (case indexOf (buffer p1) ''```'' of
                       None \<Rightarrow> ([], p1)
                     | Some firstBacktick \<Rightarrow> in_block (open_block p1 firstBacktick))
               else in_block p1))"

definition CodeBlockParser_finalize :: "CodeBlockParser \<Rightarrow> string list \<times> CodeBlockParser" where
  "CodeBlockParser_finalize p =
     (if inCodeBlock p \<and> \<not> codeBlockComplete p \<and> buffer p \<noteq> []
      then ([buffer p], p\<lparr>buffer := []\<rparr>)
      else ([], p))"

text \<open>Feeding a sequence of chunks, one \<open>processChunk\<close> call each.\<close>

fun processChunks :: "CodeBlockParser \<Rightarrow> string list \<Rightarrow> string list \<times> CodeBlockParser" where
  "processChunks p [] = ([], p)"
| "processChunks p (c # cs) =
     (let (ys, p') = processChunk p c;
          (zs, p'') = processChunks p' cs
      in (ys @ zs, p''))"

text \<open>Everything a parser yields for a chunk sequence, \<open>finalize\<close> included.\<close>

definition parse_stream :: "string list \<Rightarrow> string list" where
  "parse_stream cs =
     (let (ys, p) = processChunks new_CodeBlockParser cs
      in ys @ fst (CodeBlockParser_finalize p))"

section \<open>StreamProcessor\<close>

text \<open>
  The fields \<open>buffer\<close> and \<open>codeBlockComplete\<close> of the class are named \<open>pending\<close> and
  \<open>extractComplete\<close> here, since the parser's record has fields of the same names.
\<close>

record StreamProcessor =
  isThinking :: bool
  pending :: string
  extractCodeBlock :: bool
  codeBlockParser :: "CodeBlockParser option"
  codeBlockBuffer :: string
  extractComplete :: bool

definition new_StreamProcessor :: "bool \<Rightarrow> StreamProcessor" where
  "new_StreamProcessor extract =
     \<lparr>isThinking = False, pending = [], extractCodeBlock = extract,
      codeBlockParser = (if extract then Some new_CodeBlockParser else None),
      codeBlockBuffer = [], extractComplete = False\<rparr>"

text \<open>
  The loop \<open>while (content.length > 0)\<close> of \<open>process\<close> (lines 98 to 164), entered with
  \<open>this.buffer = ''\<close>: the fragments yielded, and \<open>isThinking\<close> and \<open>buffer\<close> at the end.
\<close>

function process_loop :: "bool \<Rightarrow> string \<Rightarrow> string list \<times> bool \<times> string" where
  "process_loop thinking content =
     (if content = [] then ([], thinking, [])
      else if thinking
      then (case indexOf content ''</think>'' of
              Some endTagIndex \<Rightarrow> process_loop False (drop (endTagIndex + 8) content)
            | None \<Rightarrow>
                if length content > 7
                then ([], True, drop (length content - 7) content)
                else ([], True, content))
      else (case indexOf content ''<think>'' of
              Some startTagIndex \<Rightarrow>
                (let (ys, t, b) = process_loop True (drop (startTagIndex + 7) content)
                 in ((if startTagIndex > 0 then [take startTagIndex content] else []) @ ys, t, b))
            | None \<Rightarrow>
                if length content \<ge> 7
                then (let safeLen = length content - 6;
                          safePart = take safeLen content;
                          riskyPart = drop safeLen content
                      in case lastIndexOf riskyPart ''<'' of
                           Some lastOpen \<Rightarrow>
                             ([safePart @ take lastOpen riskyPart], False, drop lastOpen riskyPart)
                         | None \<Rightarrow> ([content], False, []))
                else if CHR ''<'' \<in> set content
                     then ([], False, content)
                     else ([content], False, [])))"
  by pat_completeness auto
termination
  by (relation "measure (\<lambda>(thinking, content). length content)") auto

declare process_loop.simps [simp del]

text \<open>
  What \<open>process\<close> and \<open>finalize\<close> yield. With \<open>extractCodeBlock\<close> set, both yield the
  generator object that \<open>codeBlockParser.processChunk(content)\<close> or
  \<open>codeBlockParser.finalize()\<close> returns (the call of a generator function runs none of its
  body, and its result is never \<open>null\<close>); a consumer that appends it to a string gets its
  string conversion.
\<close>

datatype fragment = Text string | GeneratorObject

fun text_of :: "fragment \<Rightarrow> string" where
  "text_of (Text s) = s"
| "text_of GeneratorObject = ''[object Generator]''"

definition process :: "StreamProcessor \<Rightarrow> string \<Rightarrow> fragment list \<times> StreamProcessor" where
  "process sp chunk =
     (if chunk = [] then ([], sp)
      else (let content = pending sp @ chunk;
                sp1 = sp\<lparr>pending := []\<rparr>
            in if extractCodeBlock sp1 \<and> codeBlockParser sp1 \<noteq> None
               then ([GeneratorObject],
                     sp1\<lparr>codeBlockBuffer := codeBlockBuffer sp1 @ content,
                         extractComplete := True\<rparr>)
               else (let (ys, t, b) = process_loop (isThinking sp1) content
                     in (map Text ys, sp1\<lparr>isThinking := t, pending := b\<rparr>))))"

definition StreamProcessor_finalize :: "StreamProcessor \<Rightarrow> fragment list" where
  "StreamProcessor_finalize sp =
     (if extractCodeBlock sp \<and> codeBlockParser sp \<noteq> None then [GeneratorObject] else [])"

fun process_chunks :: "StreamProcessor \<Rightarrow> string list \<Rightarrow> fragment list \<times> StreamProcessor" where
  "process_chunks sp [] = ([], sp)"
| "process_chunks sp (c # cs) =
     (let (ys, sp') = process sp c;
          (zs, sp'') = process_chunks sp' cs
      in (ys @ zs, sp''))"


section \<open>ModelManager.streamCodeBlock and processStep\<close>

text \<open>
  An asynchronous generator, run until it ends or throws: the values it yields, in order, and
  the error it throws, if any.
\<close>

type_synonym 'a gen = "'a list \<times> error option"

text \<open>
  \<^verbatim>\<open>
  for await (const rawChunk of stream) {
      for (const cleanChunk of streamProcessor.process(rawChunk)) {
          for (const codeChunk of codeBlockParser.processChunk(cleanChunk)) {
              yield codeChunk;
              if (codeBlockParser.codeBlockComplete) {
                  return; // Code block complete
              }
          }
      }
  }
  for (const finalCode of codeBlockParser.finalize()) {
      yield finalCode;
  }
  \<close>
  The test after \<open>yield codeChunk\<close> reads the flag while \<open>processChunk\<close> is suspended at one of
  its \<open>yield\<close>s, all of which come before the assignment of the flag in line 77: it reads the
  flag of the parser before the call, and a parser whose flag is set yields nothing (lemma
  \<open>processChunk_complete\<close> below). The \<open>return\<close> is never reached, and the functions below
  leave it out.
\<close>

fun extract_fragments :: "CodeBlockParser \<Rightarrow> fragment list \<Rightarrow> string list \<times> CodeBlockParser" where
  "extract_fragments p [] = ([], p)"
| "extract_fragments p (cleanChunk # rest) =
     (let (ys, p') = processChunk p (text_of cleanChunk);
          (zs, p'') = extract_fragments p' rest
      in (ys @ zs, p''))"

fun extract_chunks ::
  "StreamProcessor \<Rightarrow> CodeBlockParser \<Rightarrow> string list \<Rightarrow> string list \<times> CodeBlockParser" where
  "extract_chunks sp p [] = ([], p)"
| "extract_chunks sp p (rawChunk # rest) =
     (let (clean, sp') = process sp rawChunk;
          (ys, p') = extract_fragments p clean;
          (zs, p'') = extract_chunks sp' p' rest
      in (ys @ zs, p''))"

definition streamCodeBlock :: "string gen \<Rightarrow> string gen" where
  "streamCodeBlock stream =
     (let (ys, p) = extract_chunks (new_StreamProcessor False) new_CodeBlockParser (fst stream)
      in case snd stream of
           Some e \<Rightarrow> (ys, Some e)
         | None \<Rightarrow> (ys @ fst (CodeBlockParser_finalize p), None))"

definition NO_CHANGE :: string where
  "NO_CHANGE = ''[NO CHANGE]''"

text \<open>
  The loop of \<open>processStep\<close> while \<open>firstChunk\<close> holds (lines 148 to 168), followed by lines
  170 to 179. \<open>buf\<close> is the variable \<open>buffer\<close>, the text held back so far; \<open>chunks\<close> and
  \<open>err\<close> are what is left of \<open>stream\<close>. After \<open>break\<close> the stream is not read again, so an error it would throw later
  is never seen; once \<open>firstChunk\<close> is false every chunk is yielded as it comes.
\<close>

fun sentinel_loop :: "string \<Rightarrow> string \<Rightarrow> string list \<Rightarrow> error option \<Rightarrow> string gen" where
  "sentinel_loop existingCode buf [] err =
     (case err of
        Some e \<Rightarrow> ([], Some e)
      | None \<Rightarrow>
          if buf \<noteq> []
          then (if js_trim buf = NO_CHANGE then ([existingCode], None) else ([buf], None))
          else ([], None))"
| "sentinel_loop existingCode buf (chunk # rest) err =
     (let buf' = buf @ chunk;
          cleanBuffer = js_trim buf'
      in if prefix cleanBuffer NO_CHANGE
         then (if cleanBuffer = NO_CHANGE
               then ([existingCode], None)
               else sentinel_loop existingCode buf' rest err)
         else (buf' # rest, err))"

definition processStep :: "string \<Rightarrow> string gen \<Rightarrow> string gen" where
  "processStep existingCode stream =
     (if existingCode = [] then stream
      else sentinel_loop existingCode [] (fst stream) (snd stream))"

section \<open>ModelManager.streamResponse\<close>

datatype stage = Html | Css | Js

record codeMap =
  html :: string
  css :: string
  js :: string

type_synonym progress = "stage \<times> string"

text \<open>
  \<^verbatim>\<open>
  for await (const chunk of processStep(this, 'html', htmlMessages, htmlPrompt, existingHtml)) {
      htmlContent += chunk;
      yield { type: 'html', content: htmlContent };
  }
  \<close>
  The events yielded and the content at the end.
\<close>

fun accumulate :: "stage \<Rightarrow> string \<Rightarrow> string list \<Rightarrow> progress list \<times> string" where
  "accumulate t content [] = ([], content)"
| "accumulate t content (chunk # rest) =
     (let (evs, final) = accumulate t (content @ chunk) rest
      in ((t, content @ chunk) # evs, final))"

text \<open>
  A provider, as \<open>streamResponse\<close> uses it: the raw stream of
  \<open>provider.streamResponse(modelName, createMessagesForType(type, messageHistory, context,
  existingCode), prompt)\<close> as a function of the model name, the type, the context and the
  existing code, for the history and the prompts of the request.
\<close>

type_synonym provider = "string option \<Rightarrow> stage \<Rightarrow> string \<Rightarrow> string \<Rightarrow> string gen"

definition existing :: "codeMap option \<Rightarrow> (codeMap \<Rightarrow> string) \<Rightarrow> string" where
  "existing currentCodeMap field = (case currentCodeMap of None \<Rightarrow> [] | Some m \<Rightarrow> field m)"

definition run_stage :: "stage \<Rightarrow> string \<Rightarrow> string gen \<Rightarrow> progress list \<times> string \<times> error option" where
  "run_stage t existingCode raw =
     (let (chunks, err) = processStep existingCode (streamCodeBlock raw);
          (evs, content) = accumulate t [] chunks
      in (evs, content, err))"

definition streamResponse ::
  "(string \<rightharpoonup> provider) \<Rightarrow> string \<Rightarrow> codeMap option \<Rightarrow> progress gen" where
  "streamResponse providers modelString currentCodeMap =
     (case parseModelString modelString of
        Inl e \<Rightarrow> ([], Some e)
      | Inr (providerName, modelName) \<Rightarrow>
          (case (case providerName of None \<Rightarrow> None | Some n \<Rightarrow> providers n) of
             None \<Rightarrow> ([], Some (ProviderNotFound providerName))
           | Some provider \<Rightarrow>
               (let existingHtml = existing currentCodeMap html;
                    (htmlEvents, htmlContent, htmlErr) =
                       run_stage Html existingHtml (provider modelName Html [] existingHtml)
                in case htmlErr of
                     Some e \<Rightarrow> (htmlEvents, Some e)
                   | None \<Rightarrow>
                       (let existingCss = existing currentCodeMap css;
                            (cssEvents, cssContent, cssErr) =
                               run_stage Css existingCss
                                 (provider modelName Css htmlContent existingCss)
                        in case cssErr of
                             Some e \<Rightarrow> (htmlEvents @ cssEvents, Some e)
                           | None \<Rightarrow>
                               (let existingJs = existing currentCodeMap js;
                                    jsContext = htmlContent @ [CHR 0x0A, CHR 0x0A] @ cssContent;
                                    (jsEvents, jsContent, jsErr) =
                                       run_stage Js existingJs
                                         (provider modelName Js jsContext existingJs)
                                in (htmlEvents @ cssEvents @ jsEvents, jsErr))))))"

section \<open>The handler of /api/generate\<close>

text \<open>
  What the handler writes to the response: \<open>{model, content}\<close>, \<open>{model, done: true}\<close>,
  \<open>{model, error: err.message}\<close>, each as a \<open>data:\<close> record, and the closing
  \<open>event: done\<close> record with the data \<open>[DONE]\<close>.
\<close>

datatype event =
    Content string string
  | ModelDone string
  | ModelError string error
  | Done

fun codeBlockMarkers :: "stage \<Rightarrow> string" where
  "codeBlockMarkers Html = ''```html'' @ [CHR 0x0A]"
| "codeBlockMarkers Css = ''```css'' @ [CHR 0x0A]"
| "codeBlockMarkers Js = ''```js'' @ [CHR 0x0A]"

definition closeMarker :: string where
  "closeMarker = CHR 0x0A # ''```''"

text \<open>The loop \<open>for await (const chunk of stream)\<close> of one model (lines 165 to 202): the
  writes, and \<open>currentType\<close> at the end.\<close>

fun write_chunks ::
  "string \<Rightarrow> stage option \<Rightarrow> string \<Rightarrow> progress list \<Rightarrow> event list \<times> stage option" where
  "write_chunks modelString currentType lastContent [] = ([], currentType)"
| "write_chunks modelString currentType lastContent ((t, content) # rest) =
     (if Some t \<noteq> currentType
      then (let (ws, ct) = write_chunks modelString (Some t) content rest
            in ((if currentType \<noteq> None then [Content modelString closeMarker] else []) @
                Content modelString (codeBlockMarkers t @ content) # ws, ct))
      else (let newContent = drop (length lastContent) content
            in if newContent \<noteq> []
               then (let (ws, ct) = write_chunks modelString currentType content rest
                     in (Content modelString newContent # ws, ct))
               else write_chunks modelString currentType lastContent rest))"

text \<open>One element of \<open>streams\<close>: the writes of the task of one model, from the stream that
  \<open>modelManager.streamResponse\<close> gives it.\<close>

definition model_task :: "string \<Rightarrow> progress gen \<Rightarrow> event list" where
  "model_task modelString stream =
     (let (ws, currentType) = write_chunks modelString None [] (fst stream)
      in case snd stream of
           Some err \<Rightarrow> ws @ [ModelError modelString err]
         | None \<Rightarrow>
             ws @ (if currentType \<noteq> None then [Content modelString closeMarker] else []) @
             [ModelDone modelString])"

text \<open>
  \<open>await Promise.all(streams)\<close>: the tasks run concurrently and share only the response, so
  the response receives the writes of each task in the task's order, interleaved in any way;
  \<open>res.write('event: done\ndata: [DONE]\n\n')\<close> follows when all have ended.
\<close>

fun interleavings :: "'a list list \<Rightarrow> 'a list set" where
  "interleavings [] = {[]}"
| "interleavings (t # ts) = (\<Union>r \<in> interleavings ts. shuffles t r)"

definition generate :: "(string \<Rightarrow> progress gen) \<Rightarrow> string list \<Rightarrow> event list set" where
  "generate stream_of models =
     (\<lambda>ws. ws @ [Done]) ` interleavings (map (\<lambda>m. model_task m (stream_of m)) models)"

text \<open>The model an event names, and whether it is an error event.\<close>

fun event_model :: "event \<Rightarrow> string option" where
  "event_model (Content m c) = Some m"
| "event_model (ModelDone m) = Some m"
| "event_model (ModelError m e) = Some m"
| "event_model Done = None"

fun is_error :: "event \<Rightarrow> bool" where
  "is_error (ModelError m e) = True"
| "is_error ev = False"

section \<open>The text without its reasoning spans\<close>




section \<open>Chunk sequences\<close>

text \<open>
  The positions, counted in code units from \<open>n\<close>, at which the chunks of a sequence begin and
  end in the concatenated text: the chunk boundaries of a split.
\<close>

fun cut_points :: "nat \<Rightarrow> string list \<Rightarrow> nat list" where
  "cut_points n [] = [n]"
| "cut_points n (c # cs) = n # cut_points (n + length c) cs"

text \<open>
  A parser \<open>p\<close> fed the chunks \<open>cs\<close> yields fragments that concatenate to \<open>content\<close>, and its
  flag \<open>codeBlockComplete\<close> is set after exactly those chunks at which \<open>tot\<close> code units have
  been fed.
\<close>

definition extracts :: "CodeBlockParser \<Rightarrow> string list \<Rightarrow> string \<Rightarrow> nat \<Rightarrow> bool" where
  "extracts p cs content tot \<longleftrightarrow>
     concat (fst (processChunks p cs)) = content \<and>
     (\<forall>k \<le> length cs. codeBlockComplete (snd (processChunks p (take k cs)))
          = (length (concat (take k cs)) = tot))"

section \<open>An example request\<close>

text \<open>
  A provider registered as \<open>P\<close>: its model \<open>a\<close> yields one chunk and throws; its other models
  answer the three stages with a fenced block, with plain text, and with a fenced block.
\<close>

definition demo_provider :: provider where
  "demo_provider modelName t context existingCode =
     (if modelName = Some ''a''
      then ([''```html'' @ [CHR 0x0A] @ ''<p>hello</p>''], Some (ProviderError ''boom''))
      else (case t of
              Html \<Rightarrow> ([''```html'' @ [CHR 0x0A] @ ''<i>'', ''x</i>```''], None)
            | Css \<Rightarrow> ([''no style''], None)
            | Js \<Rightarrow> ([''```js'' @ [CHR 0x0A] @ ''f()```''], None)))"

definition demo_stream :: "string \<Rightarrow> progress gen" where
  "demo_stream m = streamResponse [''P'' \<mapsto> demo_provider] m None"

section \<open>Properties of parseModelString\<close>

lemma js_split_not_Nil: "js_split s sep \<noteq> []"
  by (induction s) (auto split: list.splits)

lemma js_split_no_sep: "sep \<notin> set s \<Longrightarrow> js_split s sep = [s]"
  by (induction s) auto

lemma js_split_append_sep:
  "sep \<notin> set p \<Longrightarrow> js_split (p @ sep # r) sep = p # js_split r sep"
proof (induction p)
  case Nil
  show ?case by simp
next
  case (Cons x p)
  then show ?case by (auto split: list.splits)
qed

text \<open>
  Claim C10. A model identifier with at least one \<open>/\<close> is parsed into the text before the
  first \<open>/\<close> (the provider name) and the text between the first and the second \<open>/\<close> (the
  model name); whatever follows a second \<open>/\<close> is dropped without an error; an identifier
  with no \<open>/\<close> throws.
\<close>

theorem parseModelString_parts:
  assumes "CHR ''/'' \<notin> set p" and "CHR ''/'' \<notin> set m"
  shows "parseModelString (p @ ''/'' @ m) = Inr (Some p, Some m) \<and>
         parseModelString (p @ ''/'' @ m @ ''/'' @ rest) = Inr (Some p, Some m) \<and>
         (CHR ''/'' \<notin> set s \<longrightarrow> parseModelString s = Inl InvalidModelFormat)"
proof -
  have one: "js_split (p @ ''/'' @ m) (CHR ''/'') = [p, m]"
    using assms by (simp add: js_split_append_sep js_split_no_sep)
  have two: "js_split (p @ ''/'' @ m @ ''/'' @ rest) (CHR ''/'') = p # m # js_split rest (CHR ''/'')"
    using assms by (simp add: js_split_append_sep)
  show ?thesis
    using one two by (simp add: parseModelString_def js_nth_def Let_def)
qed

theorem parseModelString_parts_witness:
  "parseModelString ''OpenAI/gpt-4o'' = Inr (Some ''OpenAI'', Some ''gpt-4o'') \<and>
   parseModelString ''Ollama/llama3.2/latest/x'' = Inr (Some ''Ollama'', Some ''llama3.2'') \<and>
   parseModelString ''gpt-4o'' = Inl InvalidModelFormat"
  using parseModelString_parts [of "''OpenAI''" "''gpt-4o''" "''''" "''gpt-4o''"]
    parseModelString_parts [of "''Ollama''" "''llama3.2''" "''latest/x''" "''''"]
  by simp

section \<open>Properties of CodeBlockParser.processChunk\<close>

lemma in_block_complete: "codeBlockComplete p \<Longrightarrow> in_block p = ([], p)"
  by (simp add: in_block_def)

lemma open_block_complete [simp]: "codeBlockComplete (open_block p i) = codeBlockComplete p"
  by (simp add: open_block_def Let_def)

lemma processChunk_complete: "codeBlockComplete p \<Longrightarrow> fst (processChunk p chunk) = []"
  by (simp add: processChunk_def in_block_complete Let_def split: option.splits)

lemma lastIndexOf_append_Some:
  "lastIndexOf s pat = Some i \<Longrightarrow> lastIndexOf (a @ s) pat = Some (length a + i)"
  by (induction a) auto

lemma lastIndexOf_marker:
  assumes "lastIndexOf (''``'' @ b) ''```'' = None"
  shows "lastIndexOf (a @ ''```'' @ b) ''```'' = Some (length a)"
proof -
  have "lastIndexOf (''```'' @ b) ''```'' = Some 0"
    using assms by simp
  from lastIndexOf_append_Some [OF this, of a] show ?thesis by simp
qed

text \<open>
  Claim C8, as amended. In the in-block phase, when the buffered text with the new chunk is
  \<open>a\<close>, a marker, and \<open>b\<close>, where \<open>a\<close> is not empty and no marker starts after that one (the
  marker is the last one of the buffered text), \<open>processChunk\<close> yields exactly \<open>a\<close>, sets
  \<open>codeBlockComplete\<close> and empties the buffer, which discards \<open>b\<close>. Earlier markers are part of
  \<open>a\<close> and are yielded as content.
\<close>

theorem processChunk_closes_at_last_marker:
  assumes "inCodeBlock p" and "\<not> codeBlockComplete p" and "chunk \<noteq> []"
    and "buffer p @ chunk = a @ ''```'' @ b" and "a \<noteq> []"
    and "lastIndexOf (''``'' @ b) ''```'' = None"
  shows "processChunk p chunk = ([a], p\<lparr>buffer := [], codeBlockComplete := True\<rparr>)"
proof -
  have "lastIndexOf (buffer p @ chunk) ''```'' = Some (length a)"
    using assms(4) lastIndexOf_marker [OF assms(6), of a] by simp
  moreover have "take (length a) (buffer p @ chunk) = a"
    using assms(4) by simp
  ultimately show ?thesis
    using assms(1,2,3,5) by (simp add: processChunk_def in_block_def Let_def)
qed

theorem processChunk_closes_at_last_marker_witness:
  "processChunk (new_CodeBlockParser\<lparr>inCodeBlock := True, buffer := ''x''\<rparr>) ''y```z```w'' =
     ([''xy```z''],
      new_CodeBlockParser\<lparr>inCodeBlock := True, buffer := [], codeBlockComplete := True\<rparr>)"
  using processChunk_closes_at_last_marker
    [of "new_CodeBlockParser\<lparr>inCodeBlock := True, buffer := ''x''\<rparr>" "''y```z```w''"
        "''xy```z''" "''w''"]
  by (simp add: new_CodeBlockParser_def)

text \<open>
  Claim C8 as stated fails: after the chunk \<open>```js\n\<close> the parser is in the in-block phase, and
  on the chunk \<open>a```b```c\<close> it yields \<open>a```b\<close>, the text before the last marker, not \<open>a\<close>, the
  text before the first.
\<close>

theorem processChunk_first_marker_counterexample:
  "inCodeBlock (snd (processChunk new_CodeBlockParser (''```js'' @ [CHR 0x0A]))) \<and>
   \<not> codeBlockComplete (snd (processChunk new_CodeBlockParser (''```js'' @ [CHR 0x0A]))) \<and>
   fst (processChunk (snd (processChunk new_CodeBlockParser (''```js'' @ [CHR 0x0A]))) ''a```b```c'')
     = [''a```b''] \<and>
   fst (processChunk (snd (processChunk new_CodeBlockParser (''```js'' @ [CHR 0x0A]))) ''a```b```c'')
     \<noteq> [''a'']"
  by code_simp

section \<open>The fence round trip\<close>

text \<open>
  The round trip is proved along the phases of the parser. In the in-block phase the text
  still to be yielded is \<open>u\<close>, and the buffer followed by the chunks to come is \<open>u\<close> and the
  closing marker. As long as two or more code units are to come, the buffer with the new
  chunk reaches at most the first backtick of the marker, so it holds no marker, and the
  chunk is yielded up to the text held back. The chunk that ends the marker closes the block,
  provided the marker is not at the very start of the buffer: either the chunk brings four
  code units or more, or it brings the last two backticks and two code units were held back.
  The excluded chunk boundaries are the ones that leave the closing marker at the very start
  of the buffer.
\<close>

lemma lastIndexOf_no_first:
  "c \<notin> set s \<Longrightarrow> lastIndexOf s (c # pat) = None"
  by (induction s) auto

lemma indexOf_short: "length s < length pat \<Longrightarrow> indexOf s pat = None"
proof (induction s)
  case Nil
  then show ?case by auto
next
  case (Cons x s)
  then have "\<not> prefix pat (x # s)"
    using prefix_length_le by fastforce
  with Cons show ?case by simp
qed

lemma in_block_plain:
  assumes "inCodeBlock p" and "\<not> codeBlockComplete p" and "CHR 0x60 \<notin> set (buffer p)"
  shows "in_block p = (if buffer p \<noteq> [] then [buffer p] else [], p\<lparr>buffer := []\<rparr>)"
proof -
  have "lastIndexOf (buffer p) ''```'' = None" and "lastIndexOf (buffer p) ''`'' = None"
    using assms(3) by (simp_all add: lastIndexOf_no_first)
  then show ?thesis
    using assms(1,2) by (simp add: in_block_def hold_back_def Let_def)
qed

lemma in_block_close:
  assumes "inCodeBlock p" and "\<not> codeBlockComplete p"
    and "buffer p = u @ ''```''" and "u \<noteq> []"
  shows "in_block p = ([u], p\<lparr>codeBlockComplete := True, buffer := []\<rparr>)"
proof -
  have "lastIndexOf (u @ ''```'' @ []) ''```'' = Some (length u)"
    by (rule lastIndexOf_marker) simp
  then show ?thesis
    using assms by (simp add: in_block_def Let_def)
qed

lemma processChunk_in_block:
  "inCodeBlock p \<Longrightarrow> chunk \<noteq> [] \<Longrightarrow> processChunk p chunk = in_block (p\<lparr>buffer := buffer p @ chunk\<rparr>)"
  by (simp add: processChunk_def Let_def)

lemma processChunk_Nil [simp]: "processChunk p [] = ([], p)"
  by (simp add: processChunk_def)

lemma fst_processChunks_Cons:
  "fst (processChunks p (c # cs)) = fst (processChunk p c) @ fst (processChunks (snd (processChunk p c)) cs)"
  by (simp add: split_beta)

lemma snd_processChunks_Cons:
  "snd (processChunks p (c # cs)) = snd (processChunks (snd (processChunk p c)) cs)"
  by (simp add: split_beta)

lemma processChunks_complete:
  assumes "inCodeBlock p" and "codeBlockComplete p"
  shows "fst (processChunks p cs) = [] \<and> codeBlockComplete (snd (processChunks p cs))
         \<and> inCodeBlock (snd (processChunks p cs))"
  using assms
proof (induction cs arbitrary: p)
  case Nil
  then show ?case by simp
next
  case (Cons c cs)
  have "processChunk p c = ([], if c = [] then p else p\<lparr>buffer := buffer p @ c\<rparr>)"
    using Cons.prems by (simp add: processChunk_def in_block_complete Let_def)
  then show ?case
    using Cons.IH [of "snd (processChunk p c)"] Cons.prems
    by (simp add: split_beta)
qed

text \<open>The loop that skips blanks, in closed form, and the match of the language tag.\<close>

lemma skip_blank_eq: "skip_blank buf i = i + length (takeWhile is_blank (drop i buf))"
proof (induction buf i rule: skip_blank.induct)
  case (1 buf i)
  show ?case
  proof (cases "i < length buf \<and> is_blank (buf ! i)")
    case True
    then have "drop i buf = buf ! i # drop (Suc i) buf"
      by (simp add: Cons_nth_drop_Suc)
    with True 1 show ?thesis
      by (subst skip_blank.simps) simp
  next
    case False
    have "takeWhile is_blank (drop i buf) = []"
    proof (cases "i < length buf")
      case True
      then have "drop i buf = buf ! i # drop (Suc i) buf"
        by (simp add: Cons_nth_drop_Suc)
      with True False show ?thesis by simp
    next
      case False
      then show ?thesis by simp
    qed
    with False show ?thesis
      by (subst skip_blank.simps) auto
  qed
qed

lemma langMatch_tag:
  assumes "\<forall>c \<in> set lang. is_word_char c"
  shows "langMatch (lang @ CHR 0x0A # t) = (if lang = [] then None else Some lang)"
proof -
  have nw: "\<not> is_word_char (CHR 0x0A)"
    by (simp add: is_word_char_def)
  have "takeWhile is_word_char (lang @ CHR 0x0A # t) = lang"
    using assms nw by (simp add: takeWhile_append2)
  moreover have "dropWhile is_word_char (lang @ CHR 0x0A # t) = CHR 0x0A # t"
    using assms nw by (simp add: dropWhile_append2)
  ultimately show ?thesis
    by (simp add: langMatch_def is_js_space_def)
qed

text \<open>Chunk boundaries, and the steps by which \<open>extracts\<close> is established chunk by chunk.\<close>

lemma cut_points_shift: "cut_points (a + n) cs = map ((+) a) (cut_points n cs)"
  by (induction cs arbitrary: n) (simp_all add: add.assoc)

lemma cut_points_shift0: "set (cut_points a cs) = (+) a ` set (cut_points 0 cs)"
  using cut_points_shift [of a 0 cs] by simp

lemma extracts_Cons:
  assumes "\<not> codeBlockComplete p" and "tot \<noteq> 0"
    and "concat (fst (processChunk p d)) @ content' = content"
    and "extracts (snd (processChunk p d)) ds content' (tot - length d)"
    and "length d \<le> tot"
  shows "extracts p (d # ds) content tot"
  unfolding extracts_def
proof (intro conjI allI impI)
  show "concat (fst (processChunks p (d # ds))) = content"
    using assms(3,4) by (simp add: extracts_def split_beta)
next
  fix k assume k: "k \<le> length (d # ds)"
  show "codeBlockComplete (snd (processChunks p (take k (d # ds))))
          = (length (concat (take k (d # ds))) = tot)"
  proof (cases k)
    case 0
    then show ?thesis using assms(1,2) by auto
  next
    case (Suc k')
    then have "k' \<le> length ds" using k by simp
    then have "codeBlockComplete (snd (processChunks (snd (processChunk p d)) (take k' ds)))
          = (length (concat (take k' ds)) = tot - length d)"
      using assms(4) by (simp add: extracts_def)
    then show ?thesis
      using Suc assms(5) by (auto simp: split_beta)
  qed
qed

lemma extracts_done:
  assumes "inCodeBlock p" and "codeBlockComplete p" and "concat cs = []"
  shows "extracts p cs [] 0"
  unfolding extracts_def
proof (intro conjI allI impI)
  show "concat (fst (processChunks p cs)) = []"
    using processChunks_complete [OF assms(1,2)] by simp
next
  fix k
  have "concat (take k cs) = []"
    using assms(3) by (metis append_take_drop_id concat_append append_is_Nil_conv)
  then show "codeBlockComplete (snd (processChunks p (take k cs))) = (length (concat (take k cs)) = 0)"
    using processChunks_complete [OF assms(1,2)] by simp
qed

lemma extracts_skip_empty:
  assumes "extracts p ds content tot" and "\<not> codeBlockComplete p" and "tot \<noteq> 0"
  shows "extracts p ([] # ds) content tot"
  by (rule extracts_Cons) (use assms in simp_all)

lemma cut_points_first: "n \<in> set (cut_points n cs)"
  by (cases cs) simp_all

lemma cut_points_Cons_mem:
  "k \<in> set (cut_points 0 ds) \<Longrightarrow> n + length d + k \<in> set (cut_points n (d # ds))"
  using cut_points_shift0 [of "n + length d" ds] by simp

text \<open>Searching a text and its parts, and the chunk that brings no marker.\<close>

lemma indexOf_None_last: "(lastIndexOf s pat = None) = (indexOf s pat = None)"
  by (induction s) (auto split: option.splits)

lemma indexOf_None_appendD1: "indexOf (s @ t) pat = None \<Longrightarrow> indexOf s pat = None"
proof (induction s)
  case Nil
  then show ?case by (cases t) (auto split: if_splits)
next
  case (Cons x s)
  have "prefix pat (x # s) \<Longrightarrow> prefix pat (x # s @ t)"
    by (metis append_Cons prefix_order.trans prefixI)
  with Cons show ?case by (auto split: if_splits)
qed

lemma indexOf_None_appendD2: "indexOf (s @ t) pat = None \<Longrightarrow> indexOf t pat = None"
  by (induction s) (auto split: if_splits)

lemma lastIndexOf_last: "lastIndexOf (s @ [c]) [c] = Some (length s)"
  using lastIndexOf_append_Some [of "[c]" "[c]" 0 s] by simp

lemma hold_back_concat:
  "concat (fst (hold_back p)) @ buffer (snd (hold_back p)) = buffer p"
  by (simp add: hold_back_def Let_def split: option.splits)

lemma hold_back_flags:
  "inCodeBlock (snd (hold_back p)) = inCodeBlock p"
  "codeBlockComplete (snd (hold_back p)) = codeBlockComplete p"
  by (simp_all add: hold_back_def Let_def split: option.splits)

lemma hold_back_tick:
  assumes "buffer p = s @ [CHR 0x60]"
  shows "buffer (snd (hold_back p)) = drop (length s - 1) (buffer p)"
proof -
  have "lastIndexOf (buffer p) ''`'' = Some (length s)"
    using assms lastIndexOf_last [of s "CHR 0x60"] by simp
  moreover have "nat (max 0 (int (length (buffer p)) - 2)) = length s - 1"
    using assms by simp
  ultimately show ?thesis
    using assms by (simp add: hold_back_def Let_def)
qed

lemma in_block_no_marker:
  assumes "inCodeBlock p" and "\<not> codeBlockComplete p" and "indexOf (buffer p) ''```'' = None"
  shows "in_block p = hold_back p"
  using assms indexOf_None_last [of "buffer p" "''```''"]
  by (simp add: in_block_def)

text \<open>The in-block phase, with the text held back in the buffer.\<close>

lemma extracts_buffered:
  assumes "inCodeBlock p" and "\<not> codeBlockComplete p"
    and "buffer p @ concat cs = u @ ''```''"
    and "indexOf (u @ ''`'') ''```'' = None"
    and "4 \<le> length (concat cs) \<or> length (concat cs) = 2 \<and> 2 \<le> length (buffer p)"
    and "\<forall>k \<in> set (cut_points 0 cs). k + 3 \<noteq> length (concat cs) \<and> k + 1 \<noteq> length (concat cs)"
  shows "extracts p cs u (length (concat cs))"
  using assms
proof (induction cs arbitrary: p u)
  case Nil
  then show ?case by simp
next
  case (Cons d ds)
  show ?case
  proof (cases "d = []")
    case True
    have ex: "extracts p ds u (length (concat ds))"
      using Cons.prems True by (intro Cons.IH) simp_all
    have nz: "length (concat ds) \<noteq> 0"
      using Cons.prems(5) unfolding True concat.simps append_Nil by linarith
    have "extracts p ([] # ds) u (length (concat ds))"
      by (rule extracts_skip_empty [OF ex Cons.prems(2) nz])
    then show ?thesis using True by simp
  next
    case False
    define B where "B = buffer p @ d"
    define r where "r = length (concat ds)"
    have tot: "length (concat (d # ds)) = length d + r"
      by (simp add: r_def)
    have eq: "B @ concat ds = u @ ''```''"
      using Cons.prems(3) by (simp add: B_def)
    have len: "length B + r = length u + 3"
      using arg_cong [OF eq, of length] by (simp add: r_def)
    have chunk: "processChunk p d = in_block (p\<lparr>buffer := B\<rparr>)"
      using Cons.prems(1) False by (simp add: processChunk_in_block B_def)
    have "length d \<in> set (cut_points 0 (d # ds))"
      using cut_points_first [of "length d" ds] by simp
    then have rne: "r \<noteq> 3" "r \<noteq> 1"
      using Cons.prems(6) unfolding tot by auto
    have cuts: "k + 3 \<noteq> r \<and> k + 1 \<noteq> r" if "k \<in> set (cut_points 0 ds)" for k
      using Cons.prems(6) cut_points_Cons_mem [OF that, of 0 d] unfolding tot by auto
    have dpos: "0 < length d" using False by simp
    show ?thesis
    proof (cases "r = 0")
      case True
      then have e: "concat ds = []" by (simp add: r_def)
      have Bu: "B = u @ ''```''" using eq e by simp
      have "4 \<le> length B"
        using Cons.prems(5) True unfolding tot B_def by auto
      then have "u \<noteq> []" using len True by auto
      then have step: "processChunk p d = ([u], p\<lparr>buffer := B\<rparr>\<lparr>codeBlockComplete := True, buffer := []\<rparr>)"
        using chunk in_block_close [of "p\<lparr>buffer := B\<rparr>" u] Cons.prems(1,2) Bu by simp
      have "extracts (snd (processChunk p d)) ds [] 0"
        using step e Cons.prems(1) by (intro extracts_done) simp_all
      then have "extracts (snd (processChunk p d)) ds [] (length (concat (d # ds)) - length d)"
        unfolding tot using True by simp
      then show ?thesis
        by (rule extracts_Cons [rotated 3]) (use step Cons.prems(2) dpos in simp_all)
    next
      case False
      then have r2: "r = 2 \<or> 4 \<le> r" using rne by linarith
      have Ble: "length B \<le> length u + 1" using len r2 by linarith
      have Bpre: "B = take (length B) (u @ ''`'')"
      proof -
        have "B = take (length B) (u @ ''```'')"
          using eq by (metis append_eq_conv_conj)
        also have "\<dots> = take (length B) ((u @ ''`'') @ ''``'')" by simp
        also have "\<dots> = take (length B) (u @ ''`'')"
          using Ble by (subst take_append) simp
        finally show ?thesis .
      qed
      then have "u @ ''`'' = B @ drop (length B) (u @ ''`'')"
        by (metis append_take_drop_id)
      then have "indexOf (B @ drop (length B) (u @ ''`'')) ''```'' = None"
        using Cons.prems(4) by simp
      then have noB: "indexOf B ''```'' = None"
        by (rule indexOf_None_appendD1)
      define q where "q = p\<lparr>buffer := B\<rparr>"
      have q: "inCodeBlock q" "\<not> codeBlockComplete q" "buffer q = B"
        using Cons.prems(1,2) by (simp_all add: q_def)
      have step: "processChunk p d = hold_back q"
        using chunk in_block_no_marker [of q] q noB by (simp add: q_def)
      define ys where "ys = concat (fst (hold_back q))"
      define p' where "p' = snd (hold_back q)"
      have p': "inCodeBlock p'" "\<not> codeBlockComplete p'"
        using q hold_back_flags [of q] by (simp_all add: p'_def)
      have cat: "ys @ buffer p' = B"
        using hold_back_concat [of q] q by (simp add: ys_def p'_def)
      have inv: "length ys \<le> length u \<and>
                 (4 \<le> r \<or> r = 2 \<and> 2 \<le> length (buffer p'))"
      proof (cases "r = 2")
        case True
        then have lB: "length B = length u + 1" using len by simp
        then have Bu: "B = u @ ''`''" using Bpre by simp
        have "u \<noteq> []"
        proof
          assume "u = []"
          then have "length B = 1" using lB by simp
          moreover have "length d + r = 2 \<longrightarrow> length B \<ge> 2"
            using Cons.prems(5) unfolding tot B_def by auto
          ultimately show False
            using Cons.prems(5) True dpos unfolding tot B_def by auto
        qed
        have "buffer p' = drop (length u - 1) B"
          using hold_back_tick [of q u] q Bu by (simp add: p'_def)
        then have "length (buffer p') = 2"
          using lB \<open>u \<noteq> []\<close> by (cases u) simp_all
        then show ?thesis
          using True arg_cong [OF cat, of length] lB by simp
      next
        case False
        then have "4 \<le> r" using r2 by simp
        then have "length B \<le> length u" using len by linarith
        then show ?thesis
          using \<open>4 \<le> r\<close> arg_cong [OF cat, of length] by simp
      qed
      define u' where "u' = drop (length ys) u"
      have "ys @ buffer p' @ concat ds = u @ ''```''"
        using eq unfolding cat [symmetric] append_assoc .
      then have "ys = take (length ys) (u @ ''```'')"
        and rest: "buffer p' @ concat ds = drop (length ys) (u @ ''```'')"
        by (metis append_eq_conv_conj)+
      then have ysu: "ys = take (length ys) u" and rest': "buffer p' @ concat ds = u' @ ''```''"
        using inv by (simp_all add: u'_def)
      have u: "ys @ u' = u"
        unfolding u'_def by (subst ysu) (rule append_take_drop_id)
      have "indexOf (ys @ u' @ ''`'') ''```'' = None"
        using Cons.prems(4) u by (metis append.assoc)
      then have nou': "indexOf (u' @ ''`'') ''```'' = None"
        by (rule indexOf_None_appendD2)
      have "extracts p' ds u' (length (concat ds))"
      proof (rule Cons.IH [OF p' rest' nou'])
        show "4 \<le> length (concat ds) \<or> length (concat ds) = 2 \<and> 2 \<le> length (buffer p')"
          using inv by (simp add: r_def)
        show "\<forall>k \<in> set (cut_points 0 ds). k + 3 \<noteq> length (concat ds) \<and> k + 1 \<noteq> length (concat ds)"
          using cuts by (simp add: r_def)
      qed
      then have "extracts (snd (processChunk p d)) ds u' (length (concat (d # ds)) - length d)"
        unfolding tot using step by (simp add: p'_def r_def)
      then show ?thesis
        by (rule extracts_Cons [rotated 3])
           (use step Cons.prems(2) u dpos in \<open>simp_all add: ys_def\<close>)
    qed
  qed
qed

text \<open>The in-block phase with an empty buffer.\<close>

lemma extracts_in_block:
  assumes "inCodeBlock p" and "\<not> codeBlockComplete p" and "buffer p = []"
    and "concat cs = c' @ ''```''" and "c' \<noteq> []" and "indexOf (c' @ ''`'') ''```'' = None"
    and "\<forall>k \<in> set (cut_points 0 cs). k \<noteq> length c' \<and> k \<noteq> length c' + 2"
  shows "extracts p cs c' (length c' + 3)"
proof -
  have l: "length (concat cs) = length c' + 3"
    using assms(4) by simp
  have "extracts p cs c' (length (concat cs))"
  proof (rule extracts_buffered [OF assms(1,2)])
    show "4 \<le> length (concat cs) \<or> length (concat cs) = 2 \<and> 2 \<le> length (buffer p)"
      using l assms(5) by (cases c') simp_all
    show "\<forall>k \<in> set (cut_points 0 cs). k + 3 \<noteq> length (concat cs) \<and> k + 1 \<noteq> length (concat cs)"
      using assms(7) unfolding l by auto
  qed (use assms(3,4,6) in simp_all)
  then show ?thesis using l by simp
qed

text \<open>The chunk that completes the opening marker: it must bring the tag and the line feed
  too, and what it holds of the content is handled as a first chunk of the in-block phase.\<close>

lemma extracts_first:
  assumes "processChunk p d = processChunk p0 t1"
    and "\<not> codeBlockComplete p" and "tot \<noteq> 0"
    and "extracts p0 (t1 # ds) content tot0"
    and "tot = tot0 + length d - length t1" and "length t1 \<le> length d" and "length t1 \<le> tot0"
  shows "extracts p (d # ds) content tot"
  unfolding extracts_def
proof (intro conjI allI impI)
  show "concat (fst (processChunks p (d # ds))) = content"
    using assms(1,4) by (simp add: extracts_def split_beta)
next
  fix k assume k: "k \<le> length (d # ds)"
  show "codeBlockComplete (snd (processChunks p (take k (d # ds))))
          = (length (concat (take k (d # ds))) = tot)"
  proof (cases k)
    case 0
    then show ?thesis using assms(2,3) by auto
  next
    case (Suc k')
    then have "Suc k' \<le> length (t1 # ds)" using k by simp
    then have "codeBlockComplete (snd (processChunks p0 (take (Suc k') (t1 # ds))))
          = (length (concat (take (Suc k') (t1 # ds))) = tot0)"
      using assms(4) unfolding extracts_def by blast
    then show ?thesis
      using Suc assms(1,5,6,7) by (auto simp: split_beta)
  qed
qed

lemma drop_fence_tag:
  "n = 4 + length lang + m \<Longrightarrow> drop n (a # b # c # lang @ x # t) = drop m t"
  by (simp add: numeral_eq_Suc)

lemma drop_fence_newline:
  "n = 3 + length lang \<Longrightarrow> drop n (a # b # c # lang @ t) = t"
  by (simp add: numeral_eq_Suc)

lemma take_fence_tag:
  "n = 4 + length lang + m \<Longrightarrow>
   take n (a # b # c # lang @ x # t) = a # b # c # lang @ x # take m t"
  by (simp add: numeral_eq_Suc)

lemma open_block_fence:
  assumes "\<forall>c \<in> set lang. is_word_char c" and "t1 = [] \<or> \<not> is_blank (hd t1)"
    and "buffer p = ''```'' @ lang @ CHR 0x0A # t1"
  shows "open_block p 0 =
           p\<lparr>inCodeBlock := True, languageTag := (if lang = [] then languageTag p else lang),
             buffer := t1, codeStartIndex := 0\<rparr>"
proof -
  have after: "drop 3 (buffer p) = lang @ CHR 0x0A # t1"
    using assms(3) by simp
  have tw: "takeWhile is_blank t1 = []"
    using assms(2) by (cases t1) auto
  have "drop (3 + length lang) (buffer p) = CHR 0x0A # t1"
    using assms(3) by (simp add: drop_fence_newline)
  then have sk: "skip_blank (buffer p) (3 + length lang) = 4 + length lang"
    using tw by (simp add: skip_blank_eq is_blank_def)
  have dr: "drop (4 + length lang) (buffer p) = t1"
    using assms(3) drop_fence_tag [of "4 + length lang" lang 0] by simp
  show ?thesis
  proof (cases "lang = []")
    case True
    then show ?thesis
      using after sk dr langMatch_tag [OF assms(1), of t1]
      by (simp add: open_block_def Let_def)
  next
    case False
    then show ?thesis
      using after sk dr langMatch_tag [OF assms(1), of t1]
      by (simp add: open_block_def Let_def add.commute)
  qed
qed

lemma extracts_seeking:
  assumes "\<not> inCodeBlock p" and "\<not> codeBlockComplete p" and "buffer p = pre" and "length pre < 3"
    and "pre @ concat cs = ''```'' @ lang @ CHR 0x0A # c' @ ''```''"
    and "\<forall>c \<in> set lang. is_word_char c" and "c' \<noteq> []"
    and "indexOf (c' @ ''`'') ''```'' = None" and "\<not> is_blank (hd c')"
    and "\<forall>k \<in> set (cut_points (length pre) cs).
           (k < 3 \<or> 3 + length lang < k) \<and>
           k \<noteq> length lang + length c' + 4 \<and> k \<noteq> length lang + length c' + 6"
  shows "extracts p cs c' (length lang + length c' + 7 - length pre)"
  using assms(1,2,3,4,5,10)
proof (induction cs arbitrary: p pre)
  case Nil
  then show ?case by simp
next
  case (Cons d ds)
  let ?n = "length lang + length c' + 7"
  let ?full = "''```'' @ lang @ CHR 0x0A # c' @ ''```''"
  have len: "length pre + length d + length (concat ds) = ?n"
    using arg_cong [OF Cons.prems(5), of length] by simp
  show ?case
  proof (cases "d = []")
    case True
    have "extracts p ds c' (?n - length pre)"
      using Cons.prems True by (intro Cons.IH) simp_all
    then have "extracts p ([] # ds) c' (?n - length pre)"
      by (rule extracts_skip_empty) (use Cons.prems(2,4) in simp_all)
    then show ?thesis using True by simp
  next
    case False
    have cut: "length pre + length d \<in> set (cut_points (length pre) (d # ds))"
      using cut_points_first [of "length pre + length d" ds] by simp
    show ?thesis
    proof (cases "length (pre @ d) < 3")
      case True
      then have "indexOf (pre @ d) ''```'' = None"
        by (simp add: indexOf_short)
      then have step: "processChunk p d = ([], p\<lparr>buffer := pre @ d\<rparr>)"
        using Cons.prems(1,3) False by (simp add: processChunk_def Let_def)
      have "extracts (p\<lparr>buffer := pre @ d\<rparr>) ds c' (?n - length (pre @ d))"
      proof (rule Cons.IH)
        show "\<forall>k \<in> set (cut_points (length (pre @ d)) ds).
           (k < 3 \<or> 3 + length lang < k) \<and>
           k \<noteq> length lang + length c' + 4 \<and> k \<noteq> length lang + length c' + 6"
          using Cons.prems(6) by simp
      qed (use Cons.prems(1,2,5) True in simp_all)
      then have "extracts (snd (processChunk p d)) ds c' (?n - length pre - length d)"
        using step by simp
      then show ?thesis
        by (rule extracts_Cons [rotated 3]) (use step Cons.prems(2,4) len in simp_all)
    next
      case False
      then have big: "3 + length lang < length pre + length d"
        using cut Cons.prems(6) by fastforce
      define m where "m = length pre + length d - (4 + length lang)"
      define t1 where "t1 = take m (c' @ ''```'')"
      have pd: "pre @ d = take (length (pre @ d)) ?full" and r: "concat ds = drop (length (pre @ d)) ?full"
        using Cons.prems(5) by (metis append.assoc append_eq_conv_conj concat.simps(2))+
      have e: "length (pre @ d) = 4 + length lang + m"
        using big by (simp add: m_def)
      have pd': "pre @ d = ''```'' @ lang @ CHR 0x0A # t1"
        by (subst pd) (use take_fence_tag [OF e] in \<open>simp add: t1_def\<close>)
      have r': "concat ds = drop m (c' @ ''```'')"
        by (subst r) (use drop_fence_tag [OF e] in simp)
      have mle: "m \<le> length c' + 3"
        using len by (simp add: m_def)
      have lt1: "length t1 = m" using mle by (simp add: t1_def)
      have hd1: "t1 = [] \<or> \<not> is_blank (hd t1)"
        using assms(7,9) by (cases m) (simp_all add: t1_def hd_append)
      define p0 where "p0 = p\<lparr>inCodeBlock := True,
         languageTag := (if lang = [] then languageTag p else lang), buffer := [], codeStartIndex := 0\<rparr>"
      have idx: "indexOf (pre @ d) ''```'' = Some 0"
        by (simp add: pd')
      have "processChunk p d = in_block (open_block (p\<lparr>buffer := pre @ d\<rparr>) 0)"
        using Cons.prems(1,3) \<open>d \<noteq> []\<close> idx by (simp add: processChunk_def Let_def)
      also have "open_block (p\<lparr>buffer := pre @ d\<rparr>) 0 = p0\<lparr>buffer := t1\<rparr>"
        using open_block_fence [OF assms(6) hd1, of "p\<lparr>buffer := pre @ d\<rparr>"] pd'
        by (simp add: p0_def)
      finally have chunk: "processChunk p d = in_block (p0\<lparr>buffer := t1\<rparr>)" .
      have p0: "inCodeBlock p0" "\<not> codeBlockComplete p0" "buffer p0 = []"
        using Cons.prems(2) by (simp_all add: p0_def)
      have same: "processChunk p d = processChunk p0 t1"
      proof (cases "t1 = []")
        case True
        have id: "p0\<lparr>buffer := []\<rparr> = p0"
          using p0(3) by (cases p0) simp
        have "in_block p0 = ([], p0)"
          using in_block_plain [of p0] p0 id by simp
        then show ?thesis
          using chunk True id by simp
      next
        case False
        then show ?thesis
          using chunk p0 by (simp add: processChunk_in_block)
      qed
      have "extracts p0 (t1 # ds) c' (length c' + 3)"
      proof (rule extracts_in_block)
        show "concat (t1 # ds) = c' @ ''```''"
          unfolding concat.simps r' t1_def by (rule append_take_drop_id)
        show "\<forall>k \<in> set (cut_points 0 (t1 # ds)). k \<noteq> length c' \<and> k \<noteq> length c' + 2"
        proof
          fix k assume "k \<in> set (cut_points 0 (t1 # ds))"
          then consider "k = 0" | j where "j \<in> set (cut_points 0 ds)" "k = m + j"
            using cut_points_shift0 [of "length t1" ds] lt1 by auto
          then show "k \<noteq> length c' \<and> k \<noteq> length c' + 2"
          proof cases
            case 1
            then show ?thesis using assms(7) by simp
          next
            case 2
            have "length pre + length d + j \<in> set (cut_points (length pre) (d # ds))"
              using 2(1) by (rule cut_points_Cons_mem)
            then have "length pre + length d + j \<noteq> length lang + length c' + 4 \<and>
                       length pre + length d + j \<noteq> length lang + length c' + 6"
              using Cons.prems(6) by blast
            then show ?thesis
              using 2(2) big unfolding m_def by linarith
          qed
        qed
      qed (use p0 assms(7,8) in simp_all)
      then show ?thesis
      proof (rule extracts_first [OF same, rotated 2])
        show "?n - length pre = length c' + 3 + length d - length t1"
          using big lt1 Cons.prems(4) by (simp add: m_def)
        show "length t1 \<le> length d"
          using lt1 Cons.prems(4) by (simp add: m_def)
      qed (use Cons.prems(2,4) lt1 mle in simp_all)
    qed
  qed
qed

text \<open>
  Claim C1, as amended. For a language tag of word characters (possibly empty), a content
  that is not empty, holds no marker even when a backtick is put after it (it contains no
  triple backtick and does not end with two backticks) and does not start with a space, a
  line feed or a carriage return, and a split of \<open>```lang\nCONTENT```\<close> into chunks with no chunk boundary
  from the end of the opening marker up to the line feed after the tag, none between the
  last character of the content and the closing marker, and none between the second and
  the third backtick of the closing marker: the fragments that \<open>processChunk\<close> yields over
  the chunks, followed by those of \<open>finalize\<close>, concatenate to the content, and
  \<open>codeBlockComplete\<close> is false after every chunk before the one that ends the closing
  marker and true after that chunk and every later one.
\<close>

theorem fence_round_trip:
  assumes "\<forall>c \<in> set lang. is_word_char c"
    and "content \<noteq> []" and "indexOf (content @ ''`'') ''```'' = None"
    and "\<not> is_blank (hd content)"
    and "concat cs = ''```'' @ lang @ [CHR 0x0A] @ content @ ''```''"
    and "\<forall>k \<in> set (cut_points 0 cs).
           (k < 3 \<or> 3 + length lang < k) \<and>
           k + 3 \<noteq> length (concat cs) \<and> k + 1 \<noteq> length (concat cs)"
  shows "concat (parse_stream cs) = content \<and>
         (\<forall>k \<le> length cs.
            codeBlockComplete (snd (processChunks new_CodeBlockParser (take k cs)))
              = (concat (take k cs) = concat cs))"
proof -
  let ?n = "length lang + length content + 7"
  have n: "length (concat cs) = ?n"
    using arg_cong [OF assms(5), of length] by simp
  have ex: "extracts new_CodeBlockParser cs content (?n - length ([]::string))"
  proof (rule extracts_seeking [where lang = lang])
    show "\<forall>k \<in> set (cut_points (length ([]::string)) cs).
           (k < 3 \<or> 3 + length lang < k) \<and>
           k \<noteq> length lang + length content + 4 \<and> k \<noteq> length lang + length content + 6"
      using assms(6) n by fastforce
  qed (use assms(1-5) in \<open>simp_all add: new_CodeBlockParser_def\<close>)
  then have out: "concat (fst (processChunks new_CodeBlockParser cs)) = content"
    and flags: "\<And>k. k \<le> length cs \<Longrightarrow>
        codeBlockComplete (snd (processChunks new_CodeBlockParser (take k cs)))
          = (length (concat (take k cs)) = ?n)"
    by (simp_all add: extracts_def)
  have "codeBlockComplete (snd (processChunks new_CodeBlockParser cs))"
    using flags [of "length cs"] n by simp
  then have "fst (CodeBlockParser_finalize (snd (processChunks new_CodeBlockParser cs))) = []"
    by (simp add: CodeBlockParser_finalize_def)
  then have 1: "concat (parse_stream cs) = content"
    using out by (simp add: parse_stream_def split_beta)
  have 2: "codeBlockComplete (snd (processChunks new_CodeBlockParser (take k cs)))
              = (concat (take k cs) = concat cs)" if "k \<le> length cs" for k
  proof -
    have "concat cs = concat (take k cs) @ concat (drop k cs)"
      by (metis append_take_drop_id concat_append)
    then have "(length (concat (take k cs)) = ?n) = (concat (take k cs) = concat cs)"
      using n by (metis append_self_conv length_0_conv length_append add_cancel_right_right)
    then show ?thesis using flags [OF that] by simp
  qed
  show ?thesis using 1 2 by blast
qed

theorem fence_round_trip_witness:
  "concat (parse_stream [''``'', ''`js'' @ [CHR 0x0A] @ ''a'', ''`b`'', ''``'']) = ''a`b'' \<and>
   \<not> codeBlockComplete (snd (processChunks new_CodeBlockParser
        (take 3 [''``'', ''`js'' @ [CHR 0x0A] @ ''a'', ''`b`'', ''``'']))) \<and>
   codeBlockComplete (snd (processChunks new_CodeBlockParser
        (take 4 [''``'', ''`js'' @ [CHR 0x0A] @ ''a'', ''`b`'', ''``''])))"
proof -
  let ?cs = "[''``'', ''`js'' @ [CHR 0x0A] @ ''a'', ''`b`'', ''``'']"
  have 1: "\<forall>c \<in> set ''js''. is_word_char c"
    by (simp add: is_word_char_def)
  have 2: "''a`b'' \<noteq> []" and 3: "indexOf (''a`b'' @ ''`'') ''```'' = None"
    and 4: "\<not> is_blank (hd ''a`b'')"
    by (simp_all add: is_blank_def)
  have 5: "concat ?cs = ''```'' @ ''js'' @ [CHR 0x0A] @ ''a`b'' @ ''```''"
    by simp
  have 6: "\<forall>k \<in> set (cut_points 0 ?cs).
           (k < 3 \<or> 3 + length ''js'' < k) \<and>
           k + 3 \<noteq> length (concat ?cs) \<and> k + 1 \<noteq> length (concat ?cs)"
    by simp
  from fence_round_trip [OF 1 2 3 4 5 6]
  have "concat (parse_stream ?cs) = ''a`b''"
    and f: "\<And>k. k \<le> length ?cs \<Longrightarrow>
       codeBlockComplete (snd (processChunks new_CodeBlockParser (take k ?cs)))
              = (concat (take k ?cs) = concat ?cs)"
    by blast+
  moreover have "\<not> codeBlockComplete (snd (processChunks new_CodeBlockParser (take 3 ?cs)))"
    using f [of 3] by simp
  moreover have "codeBlockComplete (snd (processChunks new_CodeBlockParser (take 4 ?cs)))"
    using f [of 4] by simp
  ultimately show ?thesis by blast
qed

text \<open>
  Claim C1 as stated fails. In one chunk, a content that starts with a space loses it (the
  loop after the tag skips spaces, line feeds and carriage returns). With the closing marker
  split before its last backtick, the backticks are yielded as content and
  \<open>codeBlockComplete\<close> stays false. With the language tag split over two chunks, the tag is
  yielded as content. A content that ends with two backticks is cut at the marker they form
  with the first backtick of the closing marker, when a chunk ends there. A tag that is not
  made of word characters is yielded as content, and for an empty content the closing
  marker is yielded.
\<close>

theorem fence_round_trip_counterexample:
  "parse_stream [''```js'' @ [CHR 0x0A] @ '' x```''] = [''x''] \<and>
   concat (parse_stream [''```js'' @ [CHR 0x0A] @ ''abc``'', ''`'']) = ''abc```'' \<and>
   \<not> codeBlockComplete (snd (processChunks new_CodeBlockParser
        [''```js'' @ [CHR 0x0A] @ ''abc``'', ''`''])) \<and>
   concat (parse_stream [''```j'', ''s'' @ [CHR 0x0A] @ ''abc```'']) = ''js'' @ [CHR 0x0A] @ ''abc'' \<and>
   concat (parse_stream [''```js'' @ [CHR 0x0A] @ ''a```'', ''``'']) = ''a'' \<and>
   concat (parse_stream [''```c++'' @ [CHR 0x0A] @ ''x```'']) = ''c++'' @ [CHR 0x0A] @ ''x'' \<and>
   concat (parse_stream [''```js'' @ [CHR 0x0A] @ ''```'']) = ''```''"
  by code_simp

section \<open>Properties of processStep\<close>

text \<open>
  \<open>trim\<close> on the prefixes of a text that is the sentinel between two runs of white space:
  the result is always a prefix of the sentinel, and it is the sentinel once the prefix covers
  it.
\<close>

lemma js_trim_alt: "js_trim s = trim_end (dropWhile is_js_space s)"
  by (simp add: js_trim_def trim_end_def)

lemma trim_end_prefix: "prefix (trim_end s) s"
proof -
  have "s = rev (dropWhile is_js_space (rev s)) @ rev (takeWhile is_js_space (rev s))"
    by (metis rev_append rev_rev_ident takeWhile_dropWhile_id)
  then show ?thesis unfolding trim_end_def by (metis prefixI)
qed

lemma trim_end_spaces:
  assumes "\<forall>c \<in> set w. is_js_space c" and "s \<noteq> []" and "\<not> is_js_space (last s)"
  shows "trim_end (s @ w) = s"
proof -
  have "dropWhile is_js_space (rev w @ rev s) = dropWhile is_js_space (rev s)"
    by (rule dropWhile_append2) (use assms(1) in auto)
  moreover have "dropWhile is_js_space (rev s) = rev s"
    using assms(2,3) by (cases "rev s") (auto simp: last_rev hd_rev[symmetric])
  ultimately show ?thesis by (simp add: trim_end_def)
qed

lemma js_trim_all_space:
  assumes "\<forall>c \<in> set w. is_js_space c"
  shows "js_trim w = []"
proof -
  have d: "dropWhile is_js_space w = []"
    using assms by (simp add: dropWhile_eq_Nil_conv)
  show ?thesis unfolding js_trim_def d by simp
qed

lemma js_trim_lead:
  "\<forall>c \<in> set w. is_js_space c \<Longrightarrow> js_trim (w @ s) = js_trim s"
  by (simp add: js_trim_def dropWhile_append2)

lemma js_trim_nonspace_head:
  "s \<noteq> [] \<Longrightarrow> \<not> is_js_space (hd s) \<Longrightarrow> js_trim s = trim_end s"
  by (cases s) (simp_all add: js_trim_alt)

lemma NO_CHANGE_ends [simp]:
  "NO_CHANGE \<noteq> []" "\<not> is_js_space (hd NO_CHANGE)" "\<not> is_js_space (last NO_CHANGE)"
  by (simp_all add: NO_CHANGE_def is_js_space_def)

lemma js_trim_sentinel:
  assumes "\<forall>c \<in> set ws1. is_js_space c" and "\<forall>c \<in> set ws2. is_js_space c"
  shows "js_trim (ws1 @ NO_CHANGE @ ws2) = NO_CHANGE"
proof -
  have "js_trim (ws1 @ NO_CHANGE @ ws2) = js_trim (NO_CHANGE @ ws2)"
    using assms(1) by (rule js_trim_lead)
  also have "\<dots> = trim_end (NO_CHANGE @ ws2)"
    by (rule js_trim_nonspace_head) (simp_all add: hd_append)
  also have "\<dots> = NO_CHANGE"
    using assms(2) by (rule trim_end_spaces) simp_all
  finally show ?thesis .
qed

lemma js_trim_prefix_sentinel:
  assumes sp1: "\<forall>c \<in> set ws1. is_js_space c" and sp2: "\<forall>c \<in> set ws2. is_js_space c"
    and pre: "prefix b (ws1 @ NO_CHANGE @ ws2)"
  shows "prefix (js_trim b) NO_CHANGE"
proof (cases "length b \<le> length ws1")
  case True
  then have "prefix b ws1"
    using pre by (metis prefix_length_prefix append_prefixD prefix_order.order_refl prefixI)
  then have "\<forall>c \<in> set b. is_js_space c"
    using sp1 set_mono_prefix by blast
  then show ?thesis by (simp add: js_trim_all_space)
next
  case False
  then obtain b' where b: "b = ws1 @ b'" and b': "b' \<noteq> []" and pb': "prefix b' (NO_CHANGE @ ws2)"
    using pre
    by (metis append_Nil2 append_eq_append_conv_if append_take_drop_id linorder_le_cases
        prefix_def same_prefix_prefix take_all_iff)
  have hd: "hd b' = hd NO_CHANGE"
    using b' pb' by (cases b') (auto simp: prefix_Cons NO_CHANGE_def)
  have t: "js_trim b = trim_end b'"
    using b sp1 b' hd by (simp add: js_trim_lead js_trim_nonspace_head)
  show ?thesis
  proof (cases "prefix b' NO_CHANGE")
    case True
    then show ?thesis
      using t trim_end_prefix [of b'] by (metis prefix_order.trans)
  next
    case False
    then obtain w where "b' = NO_CHANGE @ w" and "prefix w ws2"
      using pb' by (metis prefix_append prefixI prefix_same_cases same_prefix_prefix prefix_def)
    moreover then have "\<forall>c \<in> set w. is_js_space c"
      using sp2 set_mono_prefix by blast
    ultimately show ?thesis
      using t by (simp add: trim_end_spaces)
  qed
qed

lemma sentinel_loop_revert:
  assumes "\<forall>c \<in> set ws1. is_js_space c" and "\<forall>c \<in> set ws2. is_js_space c"
    and "buf @ concat chunks = ws1 @ NO_CHANGE @ ws2"
    and "js_trim buf \<noteq> NO_CHANGE"
  shows "sentinel_loop existingCode buf chunks err = ([existingCode], None)"
  using assms(3,4)
proof (induction chunks arbitrary: buf)
  case Nil
  then show ?case using js_trim_sentinel [OF assms(1,2)] by simp
next
  case (Cons c chunks)
  have "prefix (buf @ c) (ws1 @ NO_CHANGE @ ws2)"
    using Cons.prems(1) by (metis append.assoc concat.simps(2) prefixI)
  then have p: "prefix (js_trim (buf @ c)) NO_CHANGE"
    by (rule js_trim_prefix_sentinel [OF assms(1,2)])
  show ?case
  proof (cases "js_trim (buf @ c) = NO_CHANGE")
    case True
    then show ?thesis by (simp add: Let_def)
  next
    case False
    then show ?thesis
      using p Cons.IH [of "buf @ c"] Cons.prems(1) by (simp add: Let_def)
  qed
qed

text \<open>
  Claim C3. With prior code \<open>existingCode\<close> that is not empty, when the fragments of the
  extracted response, concatenated, are the sentinel between two runs of white space, however
  they are split and whatever the stream would do afterwards, \<open>processStep\<close> yields the prior
  code, once, and nothing else.
\<close>

theorem processStep_sentinel:
  assumes "existingCode \<noteq> []"
    and "concat chunks = ws1 @ NO_CHANGE @ ws2"
    and "\<forall>c \<in> set ws1. is_js_space c" and "\<forall>c \<in> set ws2. is_js_space c"
  shows "processStep existingCode (chunks, err) = ([existingCode], None)"
proof -
  have "js_trim [] \<noteq> NO_CHANGE"
    by (simp add: js_trim_def NO_CHANGE_def)
  with assms show ?thesis
    by (simp add: processStep_def sentinel_loop_revert [where ?ws1.0 = ws1 and ?ws2.0 = ws2])
qed


theorem processStep_sentinel_witness:
  "''<p>old</p>'' \<noteq> [] \<and>
   concat [''  [NO'', '' CHANGE]'', [CHR 0x0A]] = ''  '' @ NO_CHANGE @ [CHR 0x0A] \<and>
   processStep ''<p>old</p>'' ([''  [NO'', '' CHANGE]'', [CHR 0x0A]], Some (ProviderError ''late''))
     = ([''<p>old</p>''], None)"
  using processStep_sentinel [of "''<p>old</p>''" "[''  [NO'', '' CHANGE]'', [CHR 0x0A]]"
      "''  ''" "[CHR 0x0A]" "Some (ProviderError ''late'')"]
  by (simp add: NO_CHANGE_def is_js_space_def)

lemma length_js_trim: "length (js_trim s) \<le> length s"
proof -
  have "length (js_trim s) \<le> length (dropWhile is_js_space s)"
    unfolding js_trim_def
    using length_dropWhile_le [of is_js_space "rev (dropWhile is_js_space s)"] by simp
  also have "\<dots> \<le> length s" by (rule length_dropWhile_le)
  finally show ?thesis .
qed

lemma js_trim_prefix_of_prefix:
  assumes "prefix b NO_CHANGE"
  shows "prefix (js_trim b) NO_CHANGE"
  using js_trim_prefix_sentinel [of "[]" "[]" b] assms by simp

text \<open>
  While every accumulation trims to a strict prefix of the sentinel, the loop only buffers.
  The first fragments of a response that form a strict prefix of the sentinel are such a
  run; so are fragments of white space after them.
\<close>

lemma sentinel_loop_held:
  assumes "\<forall>k \<le> length pre. strict_prefix (js_trim (buf @ concat (take k pre))) NO_CHANGE"
  shows "sentinel_loop existingCode buf (pre @ fs) err =
         sentinel_loop existingCode (buf @ concat pre) fs err"
  using assms
proof (induction pre arbitrary: buf)
  case Nil
  then show ?case by simp
next
  case (Cons d pre)
  have sp: "strict_prefix (js_trim (buf @ d)) NO_CHANGE"
    using Cons.prems [rule_format, of 1] by simp
  have "\<forall>k \<le> length pre. strict_prefix (js_trim ((buf @ d) @ concat (take k pre))) NO_CHANGE"
  proof (intro allI impI)
    fix k assume "k \<le> length pre"
    then show "strict_prefix (js_trim ((buf @ d) @ concat (take k pre))) NO_CHANGE"
      using Cons.prems [rule_format, of "Suc k"] by simp
  qed
  then have "sentinel_loop existingCode (buf @ d) (pre @ fs) err =
      sentinel_loop existingCode ((buf @ d) @ concat pre) fs err"
    by (rule Cons.IH)
  then show ?case
    using sp by (simp add: Let_def strict_prefix_def)
qed

lemma strict_prefix_take_concat:
  assumes "strict_prefix (concat pre) s"
  shows "strict_prefix (concat (take k pre)) s"
proof -
  have "prefix (concat (take k pre)) (concat pre)"
    by (metis append_take_drop_id concat_append prefixI)
  then show ?thesis using assms by (auto simp: strict_prefix_def dest: prefix_order.antisym prefix_order.trans)
qed

lemma held_strict_prefix:
  assumes "strict_prefix (concat pre) NO_CHANGE"
  shows "\<forall>k \<le> length pre. strict_prefix (js_trim (concat (take k pre))) NO_CHANGE"
proof (intro allI impI)
  fix k
  have sp: "strict_prefix (concat (take k pre)) NO_CHANGE"
    using assms by (rule strict_prefix_take_concat)
  then have "prefix (js_trim (concat (take k pre))) NO_CHANGE"
    by (simp add: js_trim_prefix_of_prefix strict_prefix_def)
  moreover have "length (js_trim (concat (take k pre))) < length NO_CHANGE"
    using length_js_trim [of "concat (take k pre)"] sp prefix_length_less by fastforce
  ultimately show "strict_prefix (js_trim (concat (take k pre))) NO_CHANGE"
    by (auto simp: strict_prefix_def)
qed

text \<open>
  Claim C5, as amended. With prior code that is not empty, take the fragments \<open>pre\<close> of the
  extracted response up to the first fragment \<open>c\<close> at which the accumulation, trimmed, is no
  longer a strict prefix of the sentinel: every accumulation over \<open>pre\<close> trims to a strict
  prefix of the sentinel, as it does while the fragments form a strict prefix of the sentinel
  (lemma \<open>held_strict_prefix\<close>) and while white space follows. If with \<open>c\<close> the trimmed
  accumulation diverges from the sentinel, that is, it is not a prefix of it, then the
  fragments \<open>processStep\<close> yields, concatenated, are the whole response: the same text as the
  fragments of the unbuffered path (\<open>processStep\<close> with no prior code, which passes the
  stream through), and the stream ends as that one does. If with \<open>c\<close> the trimmed
  accumulation is the sentinel, \<open>processStep\<close> yields the prior code and nothing else,
  whatever the response goes on with.
\<close>

theorem processStep_divergence:
  assumes "existingCode \<noteq> []"
    and "\<forall>k \<le> length pre. strict_prefix (js_trim (concat (take k pre))) NO_CHANGE"
  shows "(\<not> prefix (js_trim (concat pre @ c)) NO_CHANGE \<longrightarrow>
            concat (fst (processStep existingCode (pre @ c # rest, err))) =
              concat (fst (processStep [] (pre @ c # rest, err))) \<and>
            concat (fst (processStep [] (pre @ c # rest, err))) = concat (pre @ c # rest) \<and>
            snd (processStep existingCode (pre @ c # rest, err)) = err) \<and>
         (js_trim (concat pre @ c) = NO_CHANGE \<longrightarrow>
            processStep existingCode (pre @ c # rest, err) = ([existingCode], None))"
proof -
  have "\<forall>k \<le> length pre. strict_prefix (js_trim ([] @ concat (take k pre))) NO_CHANGE"
    using assms(2) by simp
  then have "sentinel_loop existingCode [] (pre @ c # rest) err =
      sentinel_loop existingCode ([] @ concat pre) (c # rest) err"
    by (rule sentinel_loop_held)
  then have held: "processStep existingCode (pre @ c # rest, err) =
      sentinel_loop existingCode (concat pre) (c # rest) err"
    using assms(1) by (simp add: processStep_def)
  have "processStep existingCode (pre @ c # rest, err) = ((concat pre @ c) # rest, err)"
    if "\<not> prefix (js_trim (concat pre @ c)) NO_CHANGE"
    using that held by (simp add: Let_def)
  moreover have "processStep existingCode (pre @ c # rest, err) = ([existingCode], None)"
    if "js_trim (concat pre @ c) = NO_CHANGE"
    using that held by (simp add: Let_def)
  ultimately show ?thesis
    by (simp add: processStep_def)
qed

theorem processStep_divergence_witness:
  "concat (fst (processStep ''<p>old</p>'' ([''[NO'', [CHR 0x0A]] @ ''X'' # [''<p>new</p>''], None)))
     = ''[NO'' @ [CHR 0x0A] @ ''X<p>new</p>'' \<and>
   concat (fst (processStep [] ([''[NO'', [CHR 0x0A]] @ ''X'' # [''<p>new</p>''], None)))
     = ''[NO'' @ [CHR 0x0A] @ ''X<p>new</p>'' \<and>
   processStep ''<p>old</p>'' ([''[NO''] @ '' CHANGE]'' # [''S are needed''], Some (ProviderError ''late''))
     = ([''<p>old</p>''], None)"
proof -
  have c: "''<p>old</p>'' \<noteq> []" by simp
  have a: "\<forall>k \<le> length [''[NO'', [CHR 0x0A]].
             strict_prefix (js_trim (concat (take k [''[NO'', [CHR 0x0A]]))) NO_CHANGE"
  proof (intro allI impI)
    fix k :: nat assume "k \<le> length [''[NO'', [CHR 0x0A]]"
    then consider "k = 0" | "k = 1" | "k = 2" by fastforce
    then show "strict_prefix (js_trim (concat (take k [''[NO'', [CHR 0x0A]]))) NO_CHANGE"
      by cases (simp_all add: NO_CHANGE_def strict_prefix_def js_trim_def is_js_space_def)
  qed
  have b: "\<not> prefix (js_trim (concat [''[NO'', [CHR 0x0A]] @ ''X'')) NO_CHANGE"
    by (simp add: NO_CHANGE_def js_trim_def is_js_space_def)
  have "strict_prefix (concat [''[NO'']) NO_CHANGE"
    by (simp add: NO_CHANGE_def strict_prefix_def)
  then have a': "\<forall>k \<le> length [''[NO'']. strict_prefix (js_trim (concat (take k [''[NO'']))) NO_CHANGE"
    by (rule held_strict_prefix)
  have b': "js_trim (concat [''[NO''] @ '' CHANGE]'') = NO_CHANGE"
    by (simp add: NO_CHANGE_def js_trim_def is_js_space_def)
  show ?thesis
    using processStep_divergence [OF c a, of "''X''" "[''<p>new</p>'']" None]
      processStep_divergence [OF c a', of "'' CHANGE]''" "[''S are needed'']" "Some (ProviderError ''late'')"]
      b b'
    by simp
qed

text \<open>
  Claim C5 as stated fails when the accumulation is the sentinel at a fragment boundary and
  the response goes on. The first fragment \<open>[NO\<close> is a strict prefix of the sentinel, the
  second one completes it, and the third one makes the text diverge; \<open>processStep\<close> has
  stopped reading after the second fragment and yields the prior code, so the response is
  lost, while the unbuffered path yields all of it. The same text with the second and third
  fragment in one is flushed whole.
\<close>

theorem processStep_divergence_counterexample:
  "strict_prefix ''[NO'' NO_CHANGE \<and>
   \<not> prefix (js_trim (concat [''[NO'', '' CHANGE]'', ''S are needed''])) NO_CHANGE \<and>
   processStep ''<p>old</p>'' ([''[NO'', '' CHANGE]'', ''S are needed'', ''<p>new</p>''], None)
     = ([''<p>old</p>''], None) \<and>
   concat (fst (processStep [] ([''[NO'', '' CHANGE]'', ''S are needed'', ''<p>new</p>''], None)))
     = ''[NO CHANGE]S are needed<p>new</p>'' \<and>
   concat (fst (processStep ''<p>old</p>'' ([''[NO'', '' CHANGE]S are needed'', ''<p>new</p>''], None)))
     = ''[NO CHANGE]S are needed<p>new</p>''"
  by (simp add: processStep_def NO_CHANGE_def strict_prefix_def js_trim_def is_js_space_def Let_def)

text \<open>
  Claim C9. With prior code that is not empty, when the extracted stream yields no fragment
  and ends, \<open>processStep\<close> yields nothing: the stage has no progress event and its content
  is the empty string, not the prior code.
\<close>

theorem processStep_no_fragment:
  assumes "existingCode \<noteq> []" and "streamCodeBlock raw = ([], None)"
  shows "processStep existingCode (streamCodeBlock raw) = ([], None) \<and>
         run_stage t existingCode raw = ([], [], None)"
  using assms by (simp add: processStep_def run_stage_def)

theorem processStep_no_fragment_witness:
  "streamCodeBlock ([''I have '', ''no code for you''], None) = ([], None) \<and>
   processStep ''<p>old</p>'' (streamCodeBlock ([''I have '', ''no code for you''], None)) = ([], None) \<and>
   run_stage Html ''<p>old</p>'' ([''I have '', ''no code for you''], None) = ([], [], None)"
proof -
  have s: "streamCodeBlock ([''I have '', ''no code for you''], None) = ([], None)"
    by code_simp
  have n: "''<p>old</p>'' \<noteq> []"
    by simp
  show ?thesis
    using processStep_no_fragment [OF n s, of Html] s by simp
qed

section \<open>Properties of StreamProcessor.finalize\<close>

lemma process_extract [simp]: "extractCodeBlock (snd (process sp c)) = extractCodeBlock sp"
  by (simp add: process_def Let_def split_beta)

lemma process_chunks_extract [simp]:
  "extractCodeBlock (snd (process_chunks sp cs)) = extractCodeBlock sp"
  by (induction cs arbitrary: sp) (simp_all add: split_beta)

text \<open>
  Claim C7, as amended. After any chunk sequence, \<open>finalize()\<close> of a tag filter (a
  \<open>StreamProcessor\<close> made with \<open>extractCodeBlock\<close> false, as every one in the repository is)
  yields nothing, in the normal state as in the thinking state: a withheld tail stays in the
  buffer and is not emitted.
\<close>

theorem finalize_emits_nothing:
  "StreamProcessor_finalize (snd (process_chunks (new_StreamProcessor False) cs)) = []"
proof -
  have "extractCodeBlock (snd (process_chunks (new_StreamProcessor False) cs)) = False"
    by (simp add: new_StreamProcessor_def)
  then show ?thesis by (simp add: StreamProcessor_finalize_def)
qed

text \<open>
  Claim C7 as stated fails: the chunk \<open>a <\<close> leaves the filter in the normal state with the
  withheld tail \<open>a <\<close>, and \<open>finalize()\<close> yields nothing.
\<close>

theorem finalize_tail_counterexample:
  "\<not> isThinking (snd (process_chunks (new_StreamProcessor False) [''a <'']))
   \<and> pending (snd (process_chunks (new_StreamProcessor False) [''a <''])) = ''a <''
   \<and> StreamProcessor_finalize (snd (process_chunks (new_StreamProcessor False) [''a <''])) = []"
  by (simp add: process_def new_StreamProcessor_def process_loop.simps StreamProcessor_finalize_def Let_def)

section \<open>Properties of StreamProcessor.process\<close>
































lemma text_of_Text [simp]: "text_of \<circ> Text = (\<lambda>s. s)"
  by (rule ext) simp







section \<open>Properties of the handler of /api/generate\<close>

lemma write_chunks_same:
  "write_chunks m (Some t) acc (fst (accumulate t acc fs) @ rest) =
     (map (Content m) (filter (\<lambda>d. d \<noteq> []) fs) @
        fst (write_chunks m (Some t) (acc @ concat fs) rest),
      snd (write_chunks m (Some t) (acc @ concat fs) rest))"
proof (induction fs arbitrary: acc)
  case Nil
  show ?case by simp
next
  case (Cons f fs)
  show ?case
  proof (cases "f = []")
    case True
    then show ?thesis using Cons.IH [of acc] by (simp add: split_beta)
  next
    case False
    then show ?thesis using Cons.IH [of "acc @ f"] by (simp add: split_beta)
  qed
qed

lemma accumulate_final: "snd (accumulate t acc fs) = acc @ concat fs"
  by (induction fs arbitrary: acc) (auto simp: split_beta)

text \<open>
  Claim C4. For the progress events of one stage \<open>t\<close> of one model (the running totals of
  the fragments \<open>f # fs\<close>), entered when the current type is another one and followed by the
  events \<open>rest\<close> of later stages, the handler writes the closing marker of the previous
  block if there is one, the opening marker followed by the first fragment, and then each
  later fragment that is not empty, in order; it goes on with \<open>rest\<close> having recorded the
  whole content as sent. The first fragment and these deltas, concatenated, are the final
  accumulated content of the stage: no character is sent twice and none is skipped.
\<close>

theorem stage_deltas:
  assumes "ct \<noteq> Some t"
  shows "write_chunks m ct lc (fst (accumulate t [] (f # fs)) @ rest) =
           ((if ct \<noteq> None then [Content m closeMarker] else []) @
            Content m (codeBlockMarkers t @ f) # map (Content m) (filter (\<lambda>d. d \<noteq> []) fs) @
            fst (write_chunks m (Some t) (snd (accumulate t [] (f # fs))) rest),
            snd (write_chunks m (Some t) (snd (accumulate t [] (f # fs))) rest)) \<and>
         f @ concat (filter (\<lambda>d. d \<noteq> []) fs) = snd (accumulate t [] (f # fs))"
proof -
  have "write_chunks m (Some t) f (fst (accumulate t f fs) @ rest) =
          (map (Content m) (filter (\<lambda>d. d \<noteq> []) fs) @
             fst (write_chunks m (Some t) (f @ concat fs) rest),
           snd (write_chunks m (Some t) (f @ concat fs) rest))"
    by (rule write_chunks_same)
  moreover have "concat (filter (\<lambda>d. d \<noteq> []) fs) = concat fs"
    by (induction fs) auto
  ultimately show ?thesis
    using assms by (simp add: split_beta accumulate_final)
qed

theorem stage_deltas_witness:
  "write_chunks ''P/m'' (Some Html) ''<p>'' (fst (accumulate Css [] [''a{'', [], ''}'']) @ [(Js, ''f()'')])
     = ([Content ''P/m'' closeMarker, Content ''P/m'' (codeBlockMarkers Css @ ''a{''),
         Content ''P/m'' ''}'', Content ''P/m'' closeMarker,
         Content ''P/m'' (codeBlockMarkers Js @ ''f()'')], Some Js) \<and>
   ''a{}'' = snd (accumulate Css [] [''a{'', [], ''}''])"
  using stage_deltas [of "Some Html" Css "''P/m''" "''<p>''" "''a{''" "[[], ''}'']" "[(Js, ''f()'')]"]
  by simp

lemma write_chunks_events:
  "ev \<in> set (fst (write_chunks m ct lc evs)) \<Longrightarrow> \<exists>c. ev = Content m c"
  by (induction m ct lc evs rule: write_chunks.induct) (auto simp: split_beta Let_def split: if_splits)

lemma model_task_model: "ev \<in> set (model_task m s) \<Longrightarrow> event_model ev = Some m"
  by (auto simp: model_task_def split_beta split: option.splits if_splits dest: write_chunks_events)

lemma filter_model_task_same:
  "filter (\<lambda>ev. event_model ev = Some m) (model_task m s) = model_task m s"
  by (simp add: model_task_model)

lemma filter_model_task_other:
  "m' \<noteq> m \<Longrightarrow> filter (\<lambda>ev. event_model ev = Some m) (model_task m' s) = []"
  by (auto simp: filter_empty_conv dest: model_task_model)

lemma filter_error_writes: "filter is_error (fst (write_chunks m ct lc evs)) = []"
  by (auto simp: filter_empty_conv dest: write_chunks_events)

lemma model_task_errors:
  "filter is_error (model_task m (evs, err)) = (case err of Some e \<Rightarrow> [ModelError m e] | None \<Rightarrow> [])"
  by (simp add: model_task_def split_beta filter_error_writes split: option.splits)

lemma model_task_done:
  "last (model_task m (evs, None)) = ModelDone m \<and> model_task m (evs, None) \<noteq> []"
  by (simp add: model_task_def split_beta)

lemma shuffles_filter:
  "zs \<in> shuffles xs ys \<Longrightarrow> filter P zs \<in> shuffles (filter P xs) (filter P ys)"
  using filter_shuffles [of P xs ys] by blast

lemma Done_not_in_task: "Done \<notin> set (model_task m s)"
  using model_task_model [of Done m s] by auto

lemma interleavings_set:
  "r \<in> interleavings ts \<Longrightarrow> set r = \<Union> (set ` set ts)"
proof (induction ts arbitrary: r)
  case Nil
  then show ?case by simp
next
  case (Cons t ts)
  then obtain r' where "r' \<in> interleavings ts" and "r \<in> shuffles t r'"
    by auto
  then show ?case using Cons.IH [of r'] by (simp add: set_shuffles)
qed

lemma generate_ends_Done:
  assumes "r \<in> generate outcomes ms"
  shows "last r = Done \<and> count_list r Done = 1"
proof -
  obtain zs where r: "r = zs @ [Done]"
    and zs: "zs \<in> interleavings (map (\<lambda>m. model_task m (outcomes m)) ms)"
    using assms by (auto simp: generate_def)
  have "Done \<notin> set zs"
    using interleavings_set [OF zs] Done_not_in_task by auto
  then show ?thesis using r by (simp add: count_list_0_iff)
qed

text \<open>
  Claim C6. For two different models \<open>A\<close> and \<open>B\<close>, when the stream of \<open>A\<close> throws \<open>e\<close> and the
  stream of \<open>B\<close> ends normally, every response the handler can write has exactly one error
  event, the one naming \<open>A\<close>; the events naming \<open>B\<close> are, in order, the ones the task of \<open>B\<close>
  writes on its own (as in a request for \<open>B\<close> alone), ending with the done event of \<open>B\<close>; and
  whatever the outcomes of the two models, the response ends with the \<open>[DONE]\<close> record, which
  occurs once.
\<close>

theorem fault_isolation:
  assumes "A \<noteq> B"
    and "snd (stream_of A) = Some e" and "snd (stream_of B) = None"
    and "r \<in> generate stream_of [A, B]"
  shows "filter is_error r = [ModelError A e] \<and>
         filter (\<lambda>ev. event_model ev = Some B) r = model_task B (stream_of B) \<and>
         last (model_task B (stream_of B)) = ModelDone B \<and>
         generate stream_of [B] = {model_task B (stream_of B) @ [Done]} \<and>
         (\<forall>outcomes r'. r' \<in> generate outcomes [A, B] \<longrightarrow>
            last r' = Done \<and> count_list r' Done = 1)"
proof -
  let ?ta = "model_task A (stream_of A)" and ?tb = "model_task B (stream_of B)"
  obtain zs where r: "r = zs @ [Done]" and zs: "zs \<in> shuffles ?ta ?tb"
    using assms(4) by (auto simp: generate_def)
  have sa: "stream_of A = (fst (stream_of A), Some e)" and sb: "stream_of B = (fst (stream_of B), None)"
    using assms(2,3) by (metis prod.collapse)+
  have ea: "filter is_error ?ta = [ModelError A e]"
    by (subst sa) (simp add: model_task_errors)
  have eb: "filter is_error ?tb = []"
    by (subst sb) (simp add: model_task_errors)
  have "filter is_error zs \<in> shuffles (filter is_error ?ta) (filter is_error ?tb)"
    using zs by (rule shuffles_filter)
  then have 1: "filter is_error r = [ModelError A e]"
    using ea eb r by simp
  have "filter (\<lambda>ev. event_model ev = Some B) zs
          \<in> shuffles (filter (\<lambda>ev. event_model ev = Some B) ?ta) (filter (\<lambda>ev. event_model ev = Some B) ?tb)"
    using zs by (rule shuffles_filter)
  then have 2: "filter (\<lambda>ev. event_model ev = Some B) r = ?tb"
    using assms(1) r by (simp add: filter_model_task_same filter_model_task_other)
  have 3: "last ?tb = ModelDone B"
    by (subst sb) (simp add: model_task_done)
  have 4: "generate stream_of [B] = {?tb @ [Done]}"
    by (simp add: generate_def)
  have 5: "\<forall>outcomes r'. r' \<in> generate outcomes [A, B] \<longrightarrow>
            last r' = Done \<and> count_list r' Done = 1"
    using generate_ends_Done by blast
  show ?thesis using 1 2 3 4 5 by blast
qed

theorem fault_isolation_witness:
  "snd (demo_stream ''P/a'') = Some (ProviderError ''boom'') \<and>
   snd (demo_stream ''P/b'') = None \<and>
   [Content ''P/b'' (codeBlockMarkers Html @ ''<i>x</i>''),
      Content ''P/a'' (codeBlockMarkers Html @ ''<p>hello''),
      ModelError ''P/a'' (ProviderError ''boom''),
      Content ''P/b'' closeMarker, Content ''P/b'' (codeBlockMarkers Js @ ''f()''),
      Content ''P/b'' closeMarker, ModelDone ''P/b'', Done]
     \<in> generate demo_stream [''P/a'', ''P/b''] \<and>
   filter is_error
     [Content ''P/b'' (codeBlockMarkers Html @ ''<i>x</i>''),
      Content ''P/a'' (codeBlockMarkers Html @ ''<p>hello''),
      ModelError ''P/a'' (ProviderError ''boom''),
      Content ''P/b'' closeMarker, Content ''P/b'' (codeBlockMarkers Js @ ''f()''),
      Content ''P/b'' closeMarker, ModelDone ''P/b'', Done]
     = [ModelError ''P/a'' (ProviderError ''boom'')] \<and>
   filter (\<lambda>ev. event_model ev = Some ''P/b'')
     [Content ''P/b'' (codeBlockMarkers Html @ ''<i>x</i>''),
      Content ''P/a'' (codeBlockMarkers Html @ ''<p>hello''),
      ModelError ''P/a'' (ProviderError ''boom''),
      Content ''P/b'' closeMarker, Content ''P/b'' (codeBlockMarkers Js @ ''f()''),
      Content ''P/b'' closeMarker, ModelDone ''P/b'', Done]
     = model_task ''P/b'' (demo_stream ''P/b'') \<and>
   last (model_task ''P/b'' (demo_stream ''P/b'')) = ModelDone ''P/b''"
proof -
  let ?r = "[Content ''P/b'' (codeBlockMarkers Html @ ''<i>x</i>''),
      Content ''P/a'' (codeBlockMarkers Html @ ''<p>hello''),
      ModelError ''P/a'' (ProviderError ''boom''),
      Content ''P/b'' closeMarker, Content ''P/b'' (codeBlockMarkers Js @ ''f()''),
      Content ''P/b'' closeMarker, ModelDone ''P/b'', Done]"
  have ne: "''P/a'' \<noteq> ''P/b''" by simp
  have a: "snd (demo_stream ''P/a'') = Some (ProviderError ''boom'')"
    by code_simp
  have b: "snd (demo_stream ''P/b'') = None"
    by code_simp
  have r: "?r \<in> generate demo_stream [''P/a'', ''P/b'']"
    by code_simp
  from fault_isolation [OF ne a b r]
  have "filter is_error ?r = [ModelError ''P/a'' (ProviderError ''boom'')]"
    and "filter (\<lambda>ev. event_model ev = Some ''P/b'') ?r = model_task ''P/b'' (demo_stream ''P/b'')"
    and "last (model_task ''P/b'' (demo_stream ''P/b'')) = ModelDone ''P/b''"
    by blast+
  with a b r show ?thesis by blast
qed

end
